theory Spec2Isabelle
  imports Main
begin

section \<open>Content-encoding negotiation (package encneg) and the test handlers\<close>

text \<open>
  A shallow embedding of the Go package \<open>encneg\<close> (the negotiating file server, its two
  response shims, \<open>hasToken\<close> and \<open>GetWriter\<close>) and of the \<open>Delay\<close> handler of package
  \<open>testhandlers\<close>. Go strings are byte strings: \<open>string\<close> (a list of \<open>char\<close>, each a byte).
\<close>

subsection \<open>Standard-library string functions used by the package\<close>

text \<open>
  \<open>strings.Index(s, substr)\<close>: the index of the first instance of \<open>substr\<close> in \<open>s\<close>,
  or \<open>-1\<close> when there is none.
\<close>

fun Index :: "string \<Rightarrow> string \<Rightarrow> int" where
  "Index [] substr = (if substr = [] then 0 else - 1)"
| "Index (c # s) substr =
     (if take (length substr) (c # s) = substr then 0
      else (let i = Index s substr in if i < 0 then - 1 else i + 1))"

text \<open>\<open>strings.IndexByte(s, b)\<close>: the index of the first \<open>b\<close> in \<open>s\<close>, or \<open>-1\<close>.\<close>

fun IndexByte :: "string \<Rightarrow> char \<Rightarrow> int" where
  "IndexByte [] b = - 1"
| "IndexByte (c # s) b =
     (if c = b then 0 else (let i = IndexByte s b in if i < 0 then - 1 else i + 1))"

text \<open>
  \<open>strings.HasSuffix(s, suffix)\<close> is
  \<open>len(s) >= len(suffix) && s[len(s)-len(suffix):] == suffix\<close>.
\<close>

definition HasSuffix :: "string \<Rightarrow> string \<Rightarrow> bool" where
  "HasSuffix s suffix =
     (length suffix \<le> length s \<and> drop (length s - length suffix) s = suffix)"

text \<open>
  \<open>filepath.Ext(path)\<close> (with \<open>/\<close> as the path separator): the suffix beginning at the
  final dot of the final element of the path, empty when that element has no dot. The
  library scans from the end of the string; \<open>ExtFrom\<close> is that scan over the reversed
  string, \<open>acc\<close> holding the bytes already passed.
\<close>

fun ExtFrom :: "string \<Rightarrow> string \<Rightarrow> string" where
  "ExtFrom [] acc = []"
| "ExtFrom (c # cs) acc =
     (if c = CHR ''/'' then []
      else if c = CHR ''.'' then c # acc
      else ExtFrom cs (c # acc))"

definition Ext :: "string \<Rightarrow> string" where
  "Ext path = ExtFrom (rev path) []"

subsection \<open>The token matcher\<close>

text \<open>
  \<open>isSeparator(b)\<close> is \<open>strings.IndexByte(" \t;,", b) >= 0\<close>: space, tab, semicolon,
  comma.
\<close>

definition isSeparator :: "char \<Rightarrow> bool" where
  "isSeparator b = (IndexByte [CHR '' '', CHR 0x09, CHR '';'', CHR '',''] b \<ge> 0)"

text \<open>
  \<open>hasToken(header, token)\<close>. The index \<open>i\<close> is that of the first occurrence only. Both
  subscripts are in range whenever they are evaluated: \<open>i - 1\<close> only when \<open>i > 0\<close>, and
  \<open>i + len(token)\<close> only when it differs from \<open>len(header)\<close>, which it never exceeds.
\<close>

definition hasToken :: "string \<Rightarrow> string \<Rightarrow> bool" where
  "hasToken header token =
     (let i = Index header token in
        i \<ge> 0 \<and>
        (i = 0 \<or> isSeparator (header ! nat (i - 1))) \<and>
        (i + int (length token) = int (length header)
           \<or> isSeparator (header ! nat (i + int (length token)))))"

text \<open>
  The specification's notion, to compare \<open>hasToken\<close> with: the token occurs in the header
  at some position \<open>i\<close>, with the start of the string or a separator before it and the end
  of the string or a separator after it.
\<close>

definition delimited_at :: "string \<Rightarrow> string \<Rightarrow> nat \<Rightarrow> bool" where
  "delimited_at h t i =
     (i + length t \<le> length h \<and> take (length t) (drop i h) = t \<and>
      (i = 0 \<or> isSeparator (h ! (i - 1))) \<and>
      (i + length t = length h \<or> isSeparator (h ! (i + length t))))"

definition token_delimited :: "string \<Rightarrow> string \<Rightarrow> bool" where
  "token_delimited h t = list_ex (delimited_at h t) [0..<Suc (length h)]"

text \<open>The token occurs in the header at position \<open>i\<close> and at no earlier position.\<close>

definition first_occurrence :: "string \<Rightarrow> string \<Rightarrow> nat \<Rightarrow> bool" where
  "first_occurrence h t i =
     (take (length t) (drop i h) = t \<and> i \<le> length h \<and>
      (\<forall>j<i. take (length t) (drop j h) \<noteq> t))"

subsection \<open>Header sets and the real response sink\<close>

text \<open>
  \<open>http.Header\<close> is \<open>map[string][]string\<close>. Every key the package uses is a literal
  already in canonical form, so the canonicalisation of \<open>Get\<close>, \<open>Set\<close> and \<open>Add\<close> is the
  identity on them. Reading a missing key of a Go map gives the nil slice.
\<close>

type_synonym http_Header = "string \<rightharpoonup> string list"

definition values_of :: "http_Header \<Rightarrow> string \<Rightarrow> string list" where
  "values_of h key = (case h key of None \<Rightarrow> [] | Some vs \<Rightarrow> vs)"

definition Header_Get :: "http_Header \<Rightarrow> string \<Rightarrow> string" where
  "Header_Get h key = (case h key of None \<Rightarrow> [] | Some [] \<Rightarrow> [] | Some (v # vs) \<Rightarrow> v)"

definition Header_Set :: "string \<Rightarrow> string \<Rightarrow> http_Header \<Rightarrow> http_Header" where
  "Header_Set key v h = h(key \<mapsto> [v])"

definition Header_Add :: "string \<Rightarrow> string \<Rightarrow> http_Header \<Rightarrow> http_Header" where
  "Header_Add key v h = h(key \<mapsto> values_of h key @ [v])"

abbreviation StatusOK :: int where "StatusOK \<equiv> 200"
abbreviation StatusNotFound :: int where "StatusNotFound \<equiv> 404"

text \<open>
  The \<open>http.ResponseWriter\<close> that the caller passes to the handler is outside the package.
  It is modelled as a recorder (the tests use \<open>httptest.ResponseRecorder\<close>): its header
  set, and the calls it has received in order, a status call together with the header
  set as it stood at that call. It accepts every byte written to it.
\<close>

datatype event = WroteHeader int http_Header | Wrote string

record sink =
  Hdr :: http_Header
  Events :: "event list"

type_synonym error = string

definition sink_WriteHeader :: "int \<Rightarrow> sink \<Rightarrow> sink" where
  "sink_WriteHeader code s = s\<lparr>Events := Events s @ [WroteHeader code (Hdr s)]\<rparr>"

definition sink_Write :: "string \<Rightarrow> sink \<Rightarrow> (nat \<times> error option) \<times> sink" where
  "sink_Write b s = ((length b, None), s\<lparr>Events := Events s @ [Wrote b]\<rparr>)"

text \<open>
  An \<open>io.Reader\<close> is the bytes it still has to deliver, and whether it is also an
  \<open>io.WriterTo\<close> (as \<open>strings.Reader\<close> and \<open>bytes.Reader\<close> are; the \<open>io.LimitedReader\<close>
  through which \<open>http.FileServer\<close> sends a file is not). The \<open>WriteTo\<close> of such a reader
  hands all its unread bytes to the destination's \<open>Write\<close> in one call, and calls nothing
  when none are left.
\<close>

record reader =
  unread :: string
  writerTo :: bool

text \<open>
  \<open>io.Copy(sink, src)\<close>, and the sink's own \<open>ReadFrom(src)\<close>: the reader is drained into
  the sink (nothing is written for an empty reader) and the number of bytes copied is
  returned, by whichever of the reader's \<open>WriteTo\<close>, the sink's \<open>ReadFrom\<close> and the
  read-and-write loop does the copying; the result triple is (count and error, the reader
  afterwards, the sink afterwards).
\<close>

definition sink_Copy :: "reader \<Rightarrow> sink \<Rightarrow> (nat \<times> error option) \<times> reader \<times> sink" where
  "sink_Copy src s =
     ((length (unread src), None), src\<lparr>unread := []\<rparr>,
      (if unread src = [] then s else s\<lparr>Events := Events s @ [Wrote (unread src)]\<rparr>))"

subsection \<open>The deferred-header shim: connegResponseWriter\<close>

record connegResponseWriter =
  Suppressed :: bool
  realWriter :: sink
  header :: "http_Header option"
  wroteHeader :: bool

text \<open>
  \<open>Header()\<close> returns a reference to a map, which the caller then mutates in place.
  \<open>connegResponseWriter_Header f w\<close> is the call of \<open>w.Header()\<close> followed by the mutation
  \<open>f\<close> of the map it returned: the real sink's header set once the header is written and
  not suppressed, else the private buffer, allocated when it is nil.
\<close>

definition connegResponseWriter_Header ::
  "(http_Header \<Rightarrow> http_Header) \<Rightarrow> connegResponseWriter \<Rightarrow> connegResponseWriter" where
  "connegResponseWriter_Header f w =
     (if wroteHeader w \<and> \<not> Suppressed w
      then w\<lparr>realWriter := (realWriter w)\<lparr>Hdr := f (Hdr (realWriter w))\<rparr>\<rparr>
      else w\<lparr>header := Some (f (case header w of None \<Rightarrow> Map.empty | Some h \<Rightarrow> h))\<rparr>)"

text \<open>
  The loop \<open>for k, v := range w.header { h := w.realWriter.Header(); h[k] = append(h[k], v...) }\<close>
  touches every buffered key once, so its result does not depend on the iteration order.
\<close>

definition append_headers :: "http_Header option \<Rightarrow> http_Header \<Rightarrow> http_Header" where
  "append_headers buffered h =
     (case buffered of
        None \<Rightarrow> h
      | Some b \<Rightarrow> (\<lambda>k. case b k of None \<Rightarrow> h k | Some v \<Rightarrow> Some (values_of h k @ v)))"

definition connegResponseWriter_WriteHeader ::
  "int \<Rightarrow> connegResponseWriter \<Rightarrow> connegResponseWriter" where
  "connegResponseWriter_WriteHeader code w =
     (if wroteHeader w then w
      else let w1 = w\<lparr>wroteHeader := True\<rparr> in
        if code = StatusNotFound then w1\<lparr>Suppressed := True\<rparr>
        else let rw = realWriter w1;
                 rw1 = rw\<lparr>Hdr := append_headers (header w1) (Hdr rw)\<rparr>
             in w1\<lparr>header := None, realWriter := sink_WriteHeader code rw1\<rparr>)"

definition connegResponseWriter_Write ::
  "string \<Rightarrow> connegResponseWriter \<Rightarrow> (nat \<times> error option) \<times> connegResponseWriter" where
  "connegResponseWriter_Write b w =
     (if Suppressed w then ((length b, None), w)
      else let w1 = (if \<not> wroteHeader w then connegResponseWriter_WriteHeader StatusOK w else w)
           in case sink_Write b (realWriter w1) of
                (res, rw) \<Rightarrow> (res, w1\<lparr>realWriter := rw\<rparr>))"

definition connegResponseWriter_ReadFrom ::
  "reader \<Rightarrow> connegResponseWriter \<Rightarrow> (nat \<times> error option) \<times> reader \<times> connegResponseWriter" where
  "connegResponseWriter_ReadFrom src w =
     (if Suppressed w then ((0, None), src, w)
      else let w1 = (if \<not> wroteHeader w then connegResponseWriter_WriteHeader StatusOK w else w)
           in case sink_Copy src (realWriter w1) of
                (res, src', rw) \<Rightarrow> (res, src', w1\<lparr>realWriter := rw\<rparr>))"

subsection \<open>The auto-header shim: responseWithContentEncoding\<close>

text \<open>
  The writers that a \<open>responseWithContentEncoding\<close> wraps in this package: the caller's
  sink (\<open>ServeHTTP\<close>, the direct and the fallback path) or a \<open>connegResponseWriter\<close> (a
  probe). The interface's methods dispatch on the two.
\<close>

datatype inner = ISink sink | IConneg connegResponseWriter

definition inner_Header :: "(http_Header \<Rightarrow> http_Header) \<Rightarrow> inner \<Rightarrow> inner" where
  "inner_Header f w =
     (case w of ISink s \<Rightarrow> ISink (s\<lparr>Hdr := f (Hdr s)\<rparr>)
              | IConneg c \<Rightarrow> IConneg (connegResponseWriter_Header f c))"

definition inner_WriteHeader :: "int \<Rightarrow> inner \<Rightarrow> inner" where
  "inner_WriteHeader code w =
     (case w of ISink s \<Rightarrow> ISink (sink_WriteHeader code s)
              | IConneg c \<Rightarrow> IConneg (connegResponseWriter_WriteHeader code c))"

definition inner_Write :: "string \<Rightarrow> inner \<Rightarrow> (nat \<times> error option) \<times> inner" where
  "inner_Write b w =
     (case w of ISink s \<Rightarrow> (case sink_Write b s of (res, s') \<Rightarrow> (res, ISink s'))
              | IConneg c \<Rightarrow>
                  (case connegResponseWriter_Write b c of (res, c') \<Rightarrow> (res, IConneg c')))"

text \<open>
  The \<open>ReadFrom\<close> method of a wrapped writer, called as such.
\<close>

definition inner_ReadFrom :: "reader \<Rightarrow> inner \<Rightarrow> (nat \<times> error option) \<times> reader \<times> inner" where
  "inner_ReadFrom src w =
     (case w of ISink s \<Rightarrow> (case sink_Copy src s of (res, src', s') \<Rightarrow> (res, src', ISink s'))
              | IConneg c \<Rightarrow>
                  (case connegResponseWriter_ReadFrom src c of
                     (res, src', c') \<Rightarrow> (res, src', IConneg c')))"

text \<open>
  \<open>io.Copy(w, src)\<close> asks the source first: when it is an \<open>io.WriterTo\<close>, the copy is
  \<open>src.WriteTo(w)\<close>, which goes through \<open>w.Write\<close>; otherwise, the destination being an
  \<open>io.ReaderFrom\<close>, the copy is \<open>w.ReadFrom(src)\<close>.
\<close>

definition io_Copy :: "reader \<Rightarrow> inner \<Rightarrow> (nat \<times> error option) \<times> reader \<times> inner" where
  "io_Copy src w =
     (if writerTo src
      then (if unread src = [] then ((0, None), src, w)
            else case inner_Write (unread src) w of
                   (res, w') \<Rightarrow> (res, src\<lparr>unread := []\<rparr>, w'))
      else inner_ReadFrom src w)"

text \<open>The field \<open>w\<close> of the Go struct is named \<open>wrapped\<close> here.\<close>

record responseWithContentEncoding =
  wrapped :: inner
  encoding :: string
  isConneg :: bool
  headersSent :: bool

definition responseWithContentEncoding_Header ::
  "(http_Header \<Rightarrow> http_Header) \<Rightarrow> responseWithContentEncoding \<Rightarrow> responseWithContentEncoding"
  where
  "responseWithContentEncoding_Header f r = r\<lparr>wrapped := inner_Header f (wrapped r)\<rparr>"

definition responseWithContentEncoding_WriteHeader ::
  "int \<Rightarrow> responseWithContentEncoding \<Rightarrow> responseWithContentEncoding" where
  "responseWithContentEncoding_WriteHeader code r =
     (if headersSent r then r
      else let r1 = r\<lparr>headersSent := True\<rparr>;
               r2 = (if code = StatusOK
                     then let r' = (if encoding r1 \<noteq> []
                                    then responseWithContentEncoding_Header
                                           (Header_Set ''Content-Encoding'' (encoding r1)) r1
                                    else r1)
                          in (if isConneg r'
                              then responseWithContentEncoding_Header
                                     (Header_Set ''Vary'' ''Accept-Encoding'') r'
                              else r')
                     else r1)
           in r2\<lparr>wrapped := inner_WriteHeader code (wrapped r2)\<rparr>)"

definition responseWithContentEncoding_Write ::
  "string \<Rightarrow> responseWithContentEncoding \<Rightarrow> (nat \<times> error option) \<times> responseWithContentEncoding"
  where
  "responseWithContentEncoding_Write b r =
     (let r1 = (if \<not> headersSent r then responseWithContentEncoding_WriteHeader StatusOK r else r)
      in case inner_Write b (wrapped r1) of (res, w') \<Rightarrow> (res, r1\<lparr>wrapped := w'\<rparr>))"

definition responseWithContentEncoding_ReadFrom ::
  "reader \<Rightarrow> responseWithContentEncoding
     \<Rightarrow> (nat \<times> error option) \<times> reader \<times> responseWithContentEncoding" where
  "responseWithContentEncoding_ReadFrom src r =
     (let r1 = (if \<not> headersSent r then responseWithContentEncoding_WriteHeader StatusOK r else r)
      in case io_Copy src (wrapped r1) of (res, src', w') \<Rightarrow> (res, src', r1\<lparr>wrapped := w'\<rparr>))"

subsection \<open>The underlying file server, as a parameter\<close>

text \<open>
  \<open>http.FileServer\<close> is outside the package. A handler is modelled by what it does to
  the \<open>http.ResponseWriter\<close> it is given, as a function of the request: a sequence of
  calls of the interface (a mutation of the map returned by \<open>Header()\<close>, \<open>WriteHeader\<close>,
  \<open>Write\<close>, \<open>ReadFrom\<close> with a reader), and the request as the handler leaves
  it (\<open>http.FileServer\<close> itself rewrites a path that lacks its leading slash). A header
  mutation may depend on the header set it finds (a content type is set only when none
  is there); each is made through its own call of \<open>Header()\<close>, as \<open>http.FileServer\<close>
  makes them, so no reference to a header map is kept across a status call. The results
  of \<open>Write\<close> and \<open>ReadFrom\<close> are not looked at.
\<close>

datatype ResponseWriter = Unwrapped inner | Wrapped responseWithContentEncoding

datatype op =
    HeaderOp "http_Header \<Rightarrow> http_Header"
  | WriteHeaderOp int
  | WriteOp string
  | ReadFromOp reader

fun step :: "op \<Rightarrow> ResponseWriter \<Rightarrow> ResponseWriter" where
  "step (HeaderOp f) (Unwrapped w) = Unwrapped (inner_Header f w)"
| "step (HeaderOp f) (Wrapped r) = Wrapped (responseWithContentEncoding_Header f r)"
| "step (WriteHeaderOp code) (Unwrapped w) = Unwrapped (inner_WriteHeader code w)"
| "step (WriteHeaderOp code) (Wrapped r) = Wrapped (responseWithContentEncoding_WriteHeader code r)"
| "step (WriteOp b) (Unwrapped w) = Unwrapped (snd (inner_Write b w))"
| "step (WriteOp b) (Wrapped r) = Wrapped (snd (responseWithContentEncoding_Write b r))"
| "step (ReadFromOp src) (Unwrapped w) = Unwrapped (snd (snd (inner_ReadFrom src w)))"
| "step (ReadFromOp src) (Wrapped r) =
     Wrapped (snd (snd (responseWithContentEncoding_ReadFrom src r)))"

primrec run :: "op list \<Rightarrow> ResponseWriter \<Rightarrow> ResponseWriter" where
  "run [] w = w"
| "run (x # xs) w = run xs (step x w)"

text \<open>
  The request: \<open>r.URL.Path\<close> and \<open>r.Header\<close>; every other field of \<open>http.Request\<close> is in
  the record's extension.
\<close>

record request =
  URL_Path :: string
  Header :: http_Header

type_synonym 'a handler = "'a request_scheme \<Rightarrow> op list \<times> 'a request_scheme"

definition handler_ServeHTTP ::
  "'a handler \<Rightarrow> ResponseWriter \<Rightarrow> 'a request_scheme \<Rightarrow> ResponseWriter \<times> 'a request_scheme"
  where
  "handler_ServeHTTP h w r = (case h r of (ops, r') \<Rightarrow> (run ops w, r'))"

text \<open>Reading back the shared objects that a writer given to the handler points to.\<close>

definition the_inner :: "ResponseWriter \<Rightarrow> inner" where
  "the_inner w = (case w of Unwrapped i \<Rightarrow> i | Wrapped r \<Rightarrow> wrapped r)"

definition the_sink :: "inner \<Rightarrow> sink" where
  "the_sink w = (case w of ISink s \<Rightarrow> s | IConneg c \<Rightarrow> realWriter c)"

subsection \<open>The negotiating file handler\<close>

definition encodingByExtensionMap :: "string \<rightharpoonup> string" where
  "encodingByExtensionMap = [''.br'' \<mapsto> ''br'', ''.gz'' \<mapsto> ''gzip'']"

text \<open>
  \<open>serveCompressedFile\<close>; \<open>mime\<close> stands for \<open>mime.TypeByExtension\<close> (a table of the
  system, outside the package) and \<open>fs\<close> for the field \<open>f.fs\<close>. The parameter \<open>ext\<close> is
  unused in the source as well.
\<close>

definition serveCompressedFile ::
  "(string \<Rightarrow> string) \<Rightarrow> 'a handler \<Rightarrow> string \<Rightarrow> string \<Rightarrow> string \<Rightarrow> bool \<Rightarrow> inner
     \<Rightarrow> 'a request_scheme \<Rightarrow> ResponseWriter \<times> 'a request_scheme" where
  "serveCompressedFile mime fs ext enc path conneg w r =
     (let ct = mime (Ext path) in
      if ct \<noteq> []
      then handler_ServeHTTP fs
             (Wrapped \<lparr>wrapped = inner_Header (Header_Set ''Content-Type'' ct) w,
                       encoding = enc, isConneg = conneg, headersSent = False\<rparr>) r
      else handler_ServeHTTP fs (Unwrapped w) r)"

text \<open>
  \<open>tryServeCompressedFile\<close> returns its boolean, and with it the caller's sink and the
  request as the call leaves them. The writer handed to the file server keeps holding
  the \<open>connegResponseWriter\<close> (\<open>run_conneg_fresh\<close> and \<open>run_wrapped_conneg_fresh\<close>
  below), so the second case of the inner match is never taken.
\<close>

definition tryServeCompressedFile ::
  "(string \<Rightarrow> string) \<Rightarrow> 'a handler \<Rightarrow> string \<Rightarrow> string \<Rightarrow> string \<Rightarrow> sink
     \<Rightarrow> 'a request_scheme \<Rightarrow> bool \<times> sink \<times> 'a request_scheme" where
  "tryServeCompressedFile mime fs ext enc path w r =
     (let oldPath = URL_Path r;
          r1 = r\<lparr>URL_Path := path @ ext\<rparr>;
          crw = \<lparr>Suppressed = False, realWriter = w, header = None, wroteHeader = False\<rparr>
      in case serveCompressedFile mime fs ext enc path True (IConneg crw) r1 of
           (w', r2) \<Rightarrow>
             (case the_inner w' of
                IConneg crw' \<Rightarrow> (\<not> Suppressed crw', realWriter crw', r2\<lparr>URL_Path := oldPath\<rparr>)
              | ISink s \<Rightarrow> (True, s, r2\<lparr>URL_Path := oldPath\<rparr>)))"

definition ServeHTTP ::
  "(string \<Rightarrow> string) \<Rightarrow> 'a handler \<Rightarrow> sink \<Rightarrow> 'a request_scheme \<Rightarrow> sink \<times> 'a request_scheme"
  where
  "ServeHTTP mime fs w r =
     (let p = URL_Path r in
      if HasSuffix p ''/index.html''
      then (case handler_ServeHTTP fs (Unwrapped (ISink w)) r of
              (w', r') \<Rightarrow> (the_sink (the_inner w'), r'))
      else
        let ext = Ext p;
            enc = (case encodingByExtensionMap ext of None \<Rightarrow> [] | Some e \<Rightarrow> e)
        in
        if enc \<noteq> []
        then (case serveCompressedFile mime fs ext enc
                     (take (length (URL_Path r) - length ext) (URL_Path r)) False (ISink w) r of
                (w', r') \<Rightarrow> (the_sink (the_inner w'), r'))
        else
          let p1 = (if HasSuffix p ''/'' then p @ ''index.html'' else p);
              ae = Header_Get (Header r) ''Accept-Encoding'';
              (ok1, w1, r1) = (if hasToken ae ''br''
                               then tryServeCompressedFile mime fs ''.br'' ''br'' p1 w r
                               else (False, w, r))
          in
          if ok1 then (w1, r1)
          else
            let (ok2, w2, r2) = (if hasToken ae ''gzip''
                                 then tryServeCompressedFile mime fs ''.gz'' ''gzip'' p1 w1 r1
                                 else (False, w1, r1))
            in
            if ok2 then (w2, r2)
            else (case handler_ServeHTTP fs
                         (Wrapped \<lparr>wrapped = ISink w2, encoding = [], isConneg = True,
                                   headersSent = False\<rparr>) r2 of
                    (w', r') \<Rightarrow> (the_sink (the_inner w'), r')))"

subsection \<open>The streaming-compression selector\<close>

text \<open>
  What \<open>GetWriter\<close> returns: \<open>gzip.NewWriter(w)\<close>, a compressor around the sink (it writes
  nothing until it is written to or closed), or the sink itself.
\<close>

datatype io_Writer = gzip_NewWriter sink | Itself sink

definition GetWriter :: "sink \<Rightarrow> 'a request_scheme \<Rightarrow> io_Writer" where
  "GetWriter w r =
     (let w1 = w\<lparr>Hdr := Header_Add ''Vary'' ''Accept-Encoding'' (Hdr w)\<rparr> in
      if hasToken (Header_Get (Header r) ''Accept-Encoding'') ''gzip''
      then gzip_NewWriter w1
      else Itself w1)"

subsection \<open>The delay-injection handler (package testhandlers)\<close>

text \<open>
  \<open>url.Values\<close> and its \<open>Get\<close>: the first value of the key, or the empty string.
\<close>

type_synonym Values = "string \<rightharpoonup> string list"

definition Values_Get :: "Values \<Rightarrow> string \<Rightarrow> string" where
  "Values_Get q key = (case q key of None \<Rightarrow> [] | Some [] \<Rightarrow> [] | Some (v # vs) \<Rightarrow> v)"

text \<open>
  \<open>Delay(h)\<close>, as a transformer of the state \<open>'s\<close> of the handling flow. The package
  variable \<open>sleep\<close> and \<open>time.ParseDuration\<close> (a duration in nanoseconds, or an error) are
  parameters; \<open>h\<close> is what the wrapped handler's \<open>ServeHTTP\<close> does; \<open>q\<close> is
  \<open>r.URL.Query()\<close>.
\<close>

definition Delay ::
  "(int \<Rightarrow> 's \<Rightarrow> 's) \<Rightarrow> (string \<Rightarrow> error + int) \<Rightarrow> ('s \<Rightarrow> 's) \<Rightarrow> Values \<Rightarrow> 's \<Rightarrow> 's" where
  "Delay sleep ParseDuration h q s =
     (let d = Values_Get q ''delay'';
          s1 = (if d \<noteq> []
                then (case ParseDuration d of Inr dd \<Rightarrow> sleep dd s | Inl err \<Rightarrow> s)
                else s)
      in h s1)"

text \<open>
  The state of a handling flow, for \<open>Delay\<close>: the time it has spent blocked, and for each
  invocation of the wrapped handler the blocked time at which it started. \<open>time_Sleep\<close>
  is the default value of \<open>sleep\<close>, \<open>time.Sleep\<close>: it pauses for the duration, and
  returns immediately for a negative or zero one.
\<close>

record flow =
  blocked :: int
  invoked :: "int list"

definition time_Sleep :: "int \<Rightarrow> flow \<Rightarrow> flow" where
  "time_Sleep d s = (if d > 0 then s\<lparr>blocked := blocked s + d\<rparr> else s)"

definition invoke :: "flow \<Rightarrow> flow" where
  "invoke s = s\<lparr>invoked := invoked s @ [blocked s]\<rparr>"

section \<open>Observations for the statements\<close>

subsection \<open>What a sequence of calls amounts to\<close>

text \<open>
  The status a sequence of calls commits with: that of its first \<open>WriteHeader\<close>, or the
  success status when a \<open>Write\<close> or a \<open>ReadFrom\<close> comes first.
\<close>

fun first_status :: "op list \<Rightarrow> int option" where
  "first_status [] = None"
| "first_status (HeaderOp f # xs) = first_status xs"
| "first_status (WriteHeaderOp code # xs) = Some code"
| "first_status (WriteOp b # xs) = Some StatusOK"
| "first_status (ReadFromOp src # xs) = Some StatusOK"

text \<open>The header mutations made before that first status or write, applied in order.\<close>

fun pre_hdr :: "op list \<Rightarrow> http_Header \<Rightarrow> http_Header" where
  "pre_hdr (HeaderOp f # xs) h = pre_hdr xs (f h)"
| "pre_hdr xs h = h"

text \<open>
  The calls that remain once the status is committed: those after an explicit
  \<open>WriteHeader\<close>, or from the committing \<open>Write\<close> or \<open>ReadFrom\<close> on.
\<close>

fun after_commit :: "op list \<Rightarrow> op list" where
  "after_commit [] = []"
| "after_commit (HeaderOp f # xs) = after_commit xs"
| "after_commit (WriteHeaderOp code # xs) = xs"
| "after_commit (WriteOp b # xs) = WriteOp b # xs"
| "after_commit (ReadFromOp src # xs) = ReadFromOp src # xs"

text \<open>
  What a call does to the real sink when it arrives through a committed shim: a further
  \<open>WriteHeader\<close> is dropped, everything else passes through.
\<close>

fun passed :: "op \<Rightarrow> sink \<Rightarrow> sink" where
  "passed (HeaderOp f) s = s\<lparr>Hdr := f (Hdr s)\<rparr>"
| "passed (WriteHeaderOp code) s = s"
| "passed (WriteOp b) s = snd (sink_Write b s)"
| "passed (ReadFromOp src) s = snd (snd (sink_Copy src s))"

primrec passed_all :: "op list \<Rightarrow> sink \<Rightarrow> sink" where
  "passed_all [] s = s"
| "passed_all (x # xs) s = passed_all xs (passed x s)"

text \<open>What a call does to the real sink when the handler is given the sink itself.\<close>

fun direct :: "op \<Rightarrow> sink \<Rightarrow> sink" where
  "direct (HeaderOp f) s = s\<lparr>Hdr := f (Hdr s)\<rparr>"
| "direct (WriteHeaderOp code) s = sink_WriteHeader code s"
| "direct (WriteOp b) s = snd (sink_Write b s)"
| "direct (ReadFromOp src) s = snd (snd (sink_Copy src s))"

primrec direct_all :: "op list \<Rightarrow> sink \<Rightarrow> sink" where
  "direct_all [] s = s"
| "direct_all (x # xs) s = direct_all xs (direct x s)"

text \<open>The byte strings a sequence of calls writes, in order.\<close>

fun chunks :: "op list \<Rightarrow> string list" where
  "chunks [] = []"
| "chunks (WriteOp b # xs) = b # chunks xs"
| "chunks (ReadFromOp src # xs) =
     (if unread src = [] then chunks xs else unread src # chunks xs)"
| "chunks (x # xs) = chunks xs"

text \<open>
  A sequence of calls keeps a header key when none of its header mutations changes the
  values under that key.
\<close>

definition keeps :: "string \<Rightarrow> op list \<Rightarrow> bool" where
  "keeps k ops = (\<forall>f. HeaderOp f \<in> set ops \<longrightarrow> (\<forall>h. f h k = h k))"

subsection \<open>Reading the shims and the sink\<close>

text \<open>The private buffer of a \<open>connegResponseWriter\<close>, read as a map (nil reads as empty).\<close>

definition buf_of :: "connegResponseWriter \<Rightarrow> http_Header" where
  "buf_of c = (case header c of None \<Rightarrow> Map.empty | Some b \<Rightarrow> b)"

text \<open>The header set that \<open>Header()\<close> of a wrapped writer returns, read as a map.\<close>

definition header_set :: "inner \<Rightarrow> http_Header" where
  "header_set w =
     (case w of
        ISink s \<Rightarrow> Hdr s
      | IConneg c \<Rightarrow> if wroteHeader c \<and> \<not> Suppressed c then Hdr (realWriter c) else buf_of c)"

text \<open>
  The headers that \<open>responseWithContentEncoding.WriteHeader\<close> installs for a status,
  as a function on the header set.
\<close>

definition inject :: "string \<Rightarrow> bool \<Rightarrow> int \<Rightarrow> http_Header \<Rightarrow> http_Header" where
  "inject enc conneg code h =
     (if code = StatusOK
      then (let h1 = (if enc \<noteq> [] then Header_Set ''Content-Encoding'' enc h else h)
            in if conneg then Header_Set ''Vary'' ''Accept-Encoding'' h1 else h1)
      else h)"

text \<open>
  The header set that the tenth statement describes after the success status, written
  from its words and not from the code: \<open>Content-Encoding\<close> holds the one value \<open>enc\<close>
  when that is non-empty, \<open>Vary\<close> holds the one value \<open>Accept-Encoding\<close> in the
  negotiated configuration, whatever stood under those names; every other entry is as it
  was.
\<close>

definition overwritten :: "string \<Rightarrow> bool \<Rightarrow> http_Header \<Rightarrow> http_Header" where
  "overwritten enc conneg h =
     (\<lambda>k. if k = ''Content-Encoding'' \<and> enc \<noteq> [] then Some [enc]
          else if k = ''Vary'' \<and> conneg then Some [''Accept-Encoding'']
          else h k)"

definition conneg_of :: "ResponseWriter \<Rightarrow> connegResponseWriter option" where
  "conneg_of w = (case the_inner w of IConneg c \<Rightarrow> Some c | ISink s \<Rightarrow> None)"

definition unwrapped :: "ResponseWriter \<Rightarrow> bool" where
  "unwrapped w = (case w of Unwrapped i \<Rightarrow> True | Wrapped r \<Rightarrow> False)"

text \<open>
  The sink after a commit with status \<open>code\<close> and header set \<open>h\<close>, followed by the
  remaining calls of \<open>ops\<close>.
\<close>

definition committed :: "int \<Rightarrow> http_Header \<Rightarrow> op list \<Rightarrow> sink \<Rightarrow> sink" where
  "committed code h ops s = passed_all (after_commit ops) (sink_WriteHeader code (s\<lparr>Hdr := h\<rparr>))"

text \<open>
  How a fresh \<open>connegResponseWriter\<close> \<open>c\<close> ends (\<open>c'\<close>) after the calls \<open>ops\<close>, its buffer
  holding \<open>buffered code\<close> when it commits with \<open>code\<close>.
\<close>

definition probe_result ::
  "op list \<Rightarrow> (int \<Rightarrow> http_Header) \<Rightarrow> connegResponseWriter \<Rightarrow> connegResponseWriter \<Rightarrow> bool" where
  "probe_result ops buffered c c' =
     (case first_status ops of
        None \<Rightarrow> realWriter c' = realWriter c \<and> \<not> Suppressed c' \<and> \<not> wroteHeader c'
      | Some code \<Rightarrow>
          wroteHeader c' \<and>
          (if code = StatusNotFound
           then Suppressed c' \<and> realWriter c' = realWriter c
           else \<not> Suppressed c' \<and>
                realWriter c' =
                  committed code (append_headers (Some (buffered code)) (Hdr (realWriter c)))
                    ops (realWriter c)))"

text \<open>The buffer of a probe at its commit: \<open>Content-Type\<close>, the handler's own header
  mutations, and the injected headers, when the MIME type is known; the handler's own
  mutations alone otherwise.\<close>

definition probe_buffer ::
  "(string \<Rightarrow> string) \<Rightarrow> string \<Rightarrow> string \<Rightarrow> op list \<Rightarrow> int \<Rightarrow> http_Header" where
  "probe_buffer mime enc path ops code =
     (let ct = mime (Ext path) in
      if ct \<noteq> []
      then inject enc True code (pre_hdr ops (Header_Set ''Content-Type'' ct Map.empty))
      else pre_hdr ops Map.empty)"

text \<open>
  The response as the sink received it: the status calls with their header sets, the
  body bytes, and the events added to a sink since an earlier state of it.
\<close>

fun statuses :: "event list \<Rightarrow> (int \<times> http_Header) list" where
  "statuses [] = []"
| "statuses (WroteHeader code h # es) = (code, h) # statuses es"
| "statuses (Wrote b # es) = statuses es"

fun body :: "event list \<Rightarrow> string" where
  "body [] = []"
| "body (WroteHeader code h # es) = body es"
| "body (Wrote b # es) = b @ body es"

definition new_events :: "sink \<Rightarrow> sink \<Rightarrow> event list" where
  "new_events s0 s = drop (length (Events s0)) (Events s)"

text \<open>What \<open>GetWriter\<close> returned: whether it compresses, and the sink it writes to.\<close>

fun is_gzip :: "io_Writer \<Rightarrow> bool" where
  "is_gzip (gzip_NewWriter s) = True"
| "is_gzip (Itself s) = False"

fun underlying :: "io_Writer \<Rightarrow> sink" where
  "underlying (gzip_NewWriter s) = s"
| "underlying (Itself s) = s"

subsection \<open>Example inputs\<close>

text \<open>
  A fresh deferred-header shim over a sink that already holds \<open>Vary: Origin\<close>, with two
  headers buffered.
\<close>

definition w4 :: connegResponseWriter where
  "w4 = \<lparr>Suppressed = False,
         realWriter = \<lparr>Hdr = [''Vary'' \<mapsto> [''Origin'']], Events = []\<rparr>,
         header = Some [''Vary'' \<mapsto> [''Accept-Encoding''], ''Content-Type'' \<mapsto> [''text/html'']],
         wroteHeader = False\<rparr>"

text \<open>
  An auto-header shim over a sink that already holds values for \<open>Content-Encoding\<close> and
  \<open>Vary\<close>.
\<close>

definition r10 :: responseWithContentEncoding where
  "r10 = \<lparr>wrapped = ISink \<lparr>Hdr = [''Content-Encoding'' \<mapsto> [''identity''],
                                ''Vary'' \<mapsto> [''Origin'', ''Cookie''],
                                ''Content-Type'' \<mapsto> [''text/html'']],
                         Events = []\<rparr>,
           encoding = ''br'', isConneg = True, headersSent = False\<rparr>"

text \<open>
  An auto-header shim over a deferred-header shim that has not seen a status yet: the
  buffer holds values for \<open>Content-Encoding\<close> and \<open>Vary\<close>, and the real writer holds an
  earlier value for \<open>Vary\<close>.
\<close>

definition c10 :: connegResponseWriter where
  "c10 = \<lparr>Suppressed = False,
          realWriter = \<lparr>Hdr = [''Vary'' \<mapsto> [''Cookie'']], Events = []\<rparr>,
          header = Some [''Content-Encoding'' \<mapsto> [''identity''],
                         ''Vary'' \<mapsto> [''Origin''],
                         ''Content-Type'' \<mapsto> [''text/html'']],
          wroteHeader = False\<rparr>"

definition r10_deferred :: responseWithContentEncoding where
  "r10_deferred = \<lparr>wrapped = IConneg c10, encoding = ''br'', isConneg = True,
                   headersSent = False\<rparr>"

text \<open>
  A duration parser that agrees with \<open>time.ParseDuration\<close> on the strings it knows (in
  nanoseconds) and rejects every other string.
\<close>

definition parse_example :: "string \<Rightarrow> error + int" where
  "parse_example d =
     (if d = ''10ms'' then Inr 10000000
      else if d = ''3s30ms'' then Inr 3030000000
      else if d = ''-5s'' then Inr (- 5000000000)
      else Inl (''time: invalid duration '' @ d))"

subsection \<open>The three paths of the handler\<close>

text \<open>
  A negotiated request: the path does not end in \<open>/index.html\<close> (no passthrough) and has
  no recognised compressed extension (no direct request).
\<close>

definition negotiated :: "'a request_scheme \<Rightarrow> bool" where
  "negotiated r =
     (\<not> HasSuffix (URL_Path r) ''/index.html'' \<and>
      Ext (URL_Path r) \<noteq> ''.br'' \<and> Ext (URL_Path r) \<noteq> ''.gz'')"

text \<open>The path whose variants are probed: a directory path gets the index filename.\<close>

definition logical_path :: "'a request_scheme \<Rightarrow> string" where
  "logical_path r =
     (if HasSuffix (URL_Path r) ''/'' then URL_Path r @ ''index.html'' else URL_Path r)"

text \<open>The request accepts an encoding when \<open>hasToken\<close> finds its token.\<close>

definition accepts :: "'a request_scheme \<Rightarrow> string \<Rightarrow> bool" where
  "accepts r token = hasToken (Header_Get (Header r) ''Accept-Encoding'') token"

text \<open>The last resort of \<open>ServeHTTP\<close>: the unmodified request, through the auto-header shim.\<close>

definition fallback :: "'a handler \<Rightarrow> sink \<Rightarrow> 'a request_scheme \<Rightarrow> sink \<times> 'a request_scheme" where
  "fallback fs w r =
     (case handler_ServeHTTP fs
             (Wrapped \<lparr>wrapped = ISink w, encoding = [], isConneg = True, headersSent = False\<rparr>) r of
        (w', r') \<Rightarrow> (the_sink (the_inner w'), r'))"

text \<open>
  The requests that the file server sees in the two probes: the request with the path of
  the \<open>.br\<close> variant; and, for the \<open>.gz\<close> variant, the request as the first probe left
  it (when there was one), with the path of that variant.
\<close>

definition br_probe :: "'a request_scheme \<Rightarrow> 'a request_scheme" where
  "br_probe r = r\<lparr>URL_Path := logical_path r @ ''.br''\<rparr>"

definition gz_probe :: "'a handler \<Rightarrow> 'a request_scheme \<Rightarrow> 'a request_scheme" where
  "gz_probe fs r =
     (if accepts r ''br'' then snd (fs (br_probe r)) else r)\<lparr>URL_Path := logical_path r @ ''.gz''\<rparr>"

text \<open>
  Every probe that the handler makes is suppressed, so that the fallback is reached: the
  file server answers not-found for the \<open>.br\<close> variant when the request accepts \<open>br\<close>,
  and for the \<open>.gz\<close> variant when it accepts \<open>gzip\<close>. A request that accepts neither
  encoding has no probe to suppress.
\<close>

definition probes_suppressed :: "'a handler \<Rightarrow> 'a request_scheme \<Rightarrow> bool" where
  "probes_suppressed fs r =
     ((accepts r ''br'' \<longrightarrow> first_status (fst (fs (br_probe r))) = Some StatusNotFound) \<and>
      (accepts r ''gzip'' \<longrightarrow> first_status (fst (fs (gz_probe fs r))) = Some StatusNotFound))"

text \<open>
  A file server in the manner of \<open>http.FileServer\<close> over a small file system, with the
  MIME table reduced to \<open>.html\<close>: a stored path is answered with the success status and
  its bytes (and a detected content type when none is set), any other path with the
  not-found status. \<open>fs_rewriting\<close> also puts the leading slash on a path that lacks
  it, in the request itself, as \<open>http.FileServer\<close> does.
\<close>

definition mime_example :: "string \<Rightarrow> string" where
  "mime_example ext = (if ext = ''.html'' then ''text/html; charset=utf-8'' else [])"

definition files_example :: "string \<rightharpoonup> string" where
  "files_example =
     [''/foo.html'' \<mapsto> ''foo, uncompressed'',
      ''/foo.html.br'' \<mapsto> ''foo, brotli'',
      ''/foo.html.gz'' \<mapsto> ''foo, gzip'',
      ''/data'' \<mapsto> ''data, uncompressed'',
      ''/data.br'' \<mapsto> ''data, brotli'',
      ''/data.gz'' \<mapsto> ''data, gzip'',
      ''/notes'' \<mapsto> ''notes, uncompressed'',
      ''/notes.gz'' \<mapsto> ''notes, gzip'']"

definition fs_example :: "'a handler" where
  "fs_example r =
     (case files_example (URL_Path r) of
        None \<Rightarrow>
          ([HeaderOp (Header_Set ''Content-Type'' ''text/plain; charset=utf-8''),
            WriteHeaderOp StatusNotFound,
            WriteOp ''404 page not found''], r)
      | Some b \<Rightarrow>
          ([HeaderOp (\<lambda>h. if h ''Content-Type'' = None
                          then Header_Set ''Content-Type'' ''application/octet-stream'' h else h),
            WriteHeaderOp StatusOK,
            ReadFromOp \<lparr>unread = b, writerTo = False\<rparr>], r))"

definition fs_rewriting :: "'a handler" where
  "fs_rewriting r =
     (let r' = (if take 1 (URL_Path r) = ''/'' then r else r\<lparr>URL_Path := ''/'' @ URL_Path r\<rparr>)
      in (fst (fs_example r'), r'))"

text \<open>A sink that has received nothing, and a request with a path and an \<open>Accept-Encoding\<close>.\<close>

definition sink_example :: sink where
  "sink_example = \<lparr>Hdr = Map.empty, Events = []\<rparr>"

definition request_example :: "string \<Rightarrow> string \<Rightarrow> request" where
  "request_example p ae = \<lparr>URL_Path = p, Header = [''Accept-Encoding'' \<mapsto> [ae]]\<rparr>"

text \<open>
  What a test reads off a sink: for each status call its code and the values of
  \<open>Content-Encoding\<close> and \<open>Vary\<close> it went out with, and the body.
\<close>

definition digest :: "sink \<Rightarrow> (int \<times> string list \<times> string list) list \<times> string" where
  "digest s =
     (map (\<lambda>(code, h). (code, values_of h ''Content-Encoding'', values_of h ''Vary''))
        (statuses (Events s)),
      body (Events s))"

section \<open>How the shims transform a sequence of calls\<close>

text \<open>
  What \<open>io.Copy\<close> leaves of its destination does not depend on whether the reader is an
  \<open>io.WriterTo\<close>: the sink, and a shim that has committed, receive the bytes; a suppressed
  shim receives nothing.
\<close>

lemma io_Copy_sink:
  "snd (snd (io_Copy src (ISink s))) = ISink (snd (snd (sink_Copy src s)))"
  by (simp add: io_Copy_def inner_ReadFrom_def inner_Write_def sink_Copy_def sink_Write_def)

lemma io_Copy_live:
  "wroteHeader c \<Longrightarrow> \<not> Suppressed c \<Longrightarrow>
   snd (snd (io_Copy src (IConneg c)))
     = IConneg (c\<lparr>realWriter := snd (snd (sink_Copy src (realWriter c)))\<rparr>)"
  by (simp add: io_Copy_def inner_ReadFrom_def inner_Write_def sink_Copy_def sink_Write_def
        connegResponseWriter_Write_def connegResponseWriter_ReadFrom_def)

lemma io_Copy_suppressed:
  "Suppressed c \<Longrightarrow> snd (snd (io_Copy src (IConneg c))) = IConneg c"
  by (simp add: io_Copy_def inner_ReadFrom_def inner_Write_def
        connegResponseWriter_Write_def connegResponseWriter_ReadFrom_def)

lemma rwce_ReadFrom_state:
  "snd (snd (responseWithContentEncoding_ReadFrom src r))
     = (let r1 = (if \<not> headersSent r then responseWithContentEncoding_WriteHeader StatusOK r
                  else r)
        in r1\<lparr>wrapped := snd (snd (io_Copy src (wrapped r1)))\<rparr>)"
  by (simp add: responseWithContentEncoding_ReadFrom_def Let_def case_prod_beta)

text \<open>
  The auto-header shim over the sink: once its headers are sent it passes every call on
  but a further status; before that, the first status or write commits, with the injected
  headers in the sink's header set.
\<close>

lemma append_headers_buf: "append_headers (header c) h = append_headers (Some (buf_of c)) h"
  by (auto simp: append_headers_def buf_of_def split: option.splits)

lemma step_wrapped_sink_sent:
  "headersSent r \<Longrightarrow> wrapped r = ISink s \<Longrightarrow>
   step x (Wrapped r) = Wrapped (r\<lparr>wrapped := ISink (passed x s)\<rparr>)"
  by (cases x)
     (auto simp: responseWithContentEncoding_Header_def responseWithContentEncoding_WriteHeader_def
        responseWithContentEncoding_Write_def rwce_ReadFrom_state
        inner_Header_def inner_Write_def io_Copy_sink io_Copy_live io_Copy_suppressed inner_ReadFrom_def sink_Write_def sink_Copy_def)

lemma run_wrapped_sink_sent:
  "headersSent r \<Longrightarrow> wrapped r = ISink s \<Longrightarrow>
   run ops (Wrapped r) = Wrapped (r\<lparr>wrapped := ISink (passed_all ops s)\<rparr>)"
proof (induction ops arbitrary: r s)
  case Nil
  then show ?case by simp
next
  case (Cons x xs)
  have "step x (Wrapped r) = Wrapped (r\<lparr>wrapped := ISink (passed x s)\<rparr>)"
    using Cons.prems by (rule step_wrapped_sink_sent)
  moreover have "run xs (Wrapped (r\<lparr>wrapped := ISink (passed x s)\<rparr>))
      = Wrapped (r\<lparr>wrapped := ISink (passed x s)\<rparr>\<lparr>wrapped := ISink (passed_all xs (passed x s))\<rparr>)"
    using Cons.prems by (intro Cons.IH) auto
  ultimately show ?case by simp
qed

lemma rwce_WriteHeader_sink:
  "\<not> headersSent r \<Longrightarrow> wrapped r = ISink s \<Longrightarrow>
   responseWithContentEncoding_WriteHeader code r =
     r\<lparr>headersSent := True,
       wrapped := ISink (sink_WriteHeader code (s\<lparr>Hdr := inject (encoding r) (isConneg r) code (Hdr s)\<rparr>))\<rparr>"
  by (auto simp: responseWithContentEncoding_WriteHeader_def responseWithContentEncoding_Header_def
        inner_Header_def inner_WriteHeader_def inject_def Let_def)

lemma run_wrapped_sink:
  "\<not> headersSent r \<Longrightarrow> wrapped r = ISink s \<Longrightarrow>
   run ops (Wrapped r) =
     (case first_status ops of
        None \<Rightarrow> Wrapped (r\<lparr>wrapped := ISink (s\<lparr>Hdr := pre_hdr ops (Hdr s)\<rparr>)\<rparr>)
      | Some code \<Rightarrow>
          Wrapped (r\<lparr>headersSent := True,
                    wrapped := ISink (passed_all (after_commit ops)
                       (sink_WriteHeader code
                          (s\<lparr>Hdr := inject (encoding r) (isConneg r) code (pre_hdr ops (Hdr s))\<rparr>)))\<rparr>))"
proof (induction ops arbitrary: r s)
  case Nil
  then show ?case by simp
next
  case (Cons x xs)
  show ?case
  proof (cases x)
    case (HeaderOp f)
    have st: "responseWithContentEncoding_Header f r = r\<lparr>wrapped := ISink (s\<lparr>Hdr := f (Hdr s)\<rparr>)\<rparr>"
      using Cons.prems
      by (simp add: responseWithContentEncoding_Header_def inner_Header_def)
    show ?thesis
      using Cons.IH[of "r\<lparr>wrapped := ISink (s\<lparr>Hdr := f (Hdr s)\<rparr>)\<rparr>" "s\<lparr>Hdr := f (Hdr s)\<rparr>"] Cons.prems
      by (simp add: st HeaderOp split: option.splits)
  next
    case (WriteHeaderOp code)
    show ?thesis
      using Cons.prems WriteHeaderOp
      by (simp add: rwce_WriteHeader_sink run_wrapped_sink_sent)
  next
    case (WriteOp b)
    show ?thesis
      using Cons.prems WriteOp
      by (simp add: responseWithContentEncoding_Write_def rwce_WriteHeader_sink
            run_wrapped_sink_sent inner_Write_def sink_Write_def)
  next
    case (ReadFromOp src)
    show ?thesis
      using Cons.prems ReadFromOp
      by (simp add: rwce_ReadFrom_state rwce_WriteHeader_sink
            run_wrapped_sink_sent io_Copy_sink io_Copy_live io_Copy_suppressed inner_ReadFrom_def sink_Copy_def)
  qed
qed

text \<open>
  The deferred-header shim, alone or under the auto-header shim: a suppressed shim stays
  suppressed and keeps the real sink as it is; a shim that has committed passes every call
  on but a further status; a fresh shim ends as \<open>probe_result\<close> says.
\<close>

lemma conneg_of_simps [simp]:
  "conneg_of (Unwrapped (IConneg c)) = Some c"
  "conneg_of (Unwrapped (ISink s)) = None"
  "conneg_of (Wrapped r) = (case wrapped r of IConneg c \<Rightarrow> Some c | ISink s \<Rightarrow> None)"
  by (simp_all add: conneg_of_def the_inner_def)

lemma step_unwrapped [simp]: "unwrapped (step x w) = unwrapped w"
  by (cases x; cases w) (simp_all add: unwrapped_def)

lemma run_unwrapped [simp]: "unwrapped (run ops w) = unwrapped w"
  by (induction ops arbitrary: w) simp_all

lemma unwrapped_conneg:
  "unwrapped w \<Longrightarrow> conneg_of w = Some c \<Longrightarrow> w = Unwrapped (IConneg c)"
  by (cases w) (auto simp: unwrapped_def conneg_of_def the_inner_def split: inner.splits)

lemma unwrapped_simps [simp]: "unwrapped (Unwrapped i)" "\<not> unwrapped (Wrapped r)"
  by (simp_all add: unwrapped_def)

lemma step_suppressed:
  assumes "conneg_of w = Some c" "Suppressed c" "wroteHeader c"
  shows "\<exists>c'. conneg_of (step x w) = Some c' \<and> Suppressed c' \<and> wroteHeader c'
            \<and> realWriter c' = realWriter c"
proof (cases w)
  case (Unwrapped i)
  with assms obtain "i = IConneg c" by (cases i) auto
  with Unwrapped assms show ?thesis
    by (cases x)
       (auto simp: inner_Header_def inner_WriteHeader_def inner_Write_def io_Copy_sink io_Copy_live io_Copy_suppressed inner_ReadFrom_def
          connegResponseWriter_Header_def connegResponseWriter_WriteHeader_def
          connegResponseWriter_Write_def connegResponseWriter_ReadFrom_def)
next
  case (Wrapped r)
  with assms have w: "wrapped r = IConneg c" by (cases "wrapped r") auto
  with Wrapped assms show ?thesis
    by (cases x)
       (auto simp: inner_Header_def inner_WriteHeader_def inner_Write_def io_Copy_sink io_Copy_live io_Copy_suppressed inner_ReadFrom_def
          connegResponseWriter_Header_def connegResponseWriter_WriteHeader_def
          connegResponseWriter_Write_def connegResponseWriter_ReadFrom_def
          responseWithContentEncoding_Header_def responseWithContentEncoding_WriteHeader_def
          responseWithContentEncoding_Write_def rwce_ReadFrom_state Let_def)
qed

lemma run_suppressed:
  "conneg_of w = Some c \<Longrightarrow> Suppressed c \<Longrightarrow> wroteHeader c \<Longrightarrow>
   \<exists>c'. conneg_of (run ops w) = Some c' \<and> Suppressed c' \<and> wroteHeader c'
        \<and> realWriter c' = realWriter c"
proof (induction ops arbitrary: w c)
  case Nil
  then show ?case by simp
next
  case (Cons x xs)
  from step_suppressed[OF Cons.prems, of x] obtain c1 where
    c1: "conneg_of (step x w) = Some c1" "Suppressed c1" "wroteHeader c1"
        "realWriter c1 = realWriter c" by blast
  from Cons.IH[OF c1(1-3)] c1(4) show ?case by simp
qed

lemma step_live_unwrapped:
  "wroteHeader c \<Longrightarrow> \<not> Suppressed c \<Longrightarrow>
   step x (Unwrapped (IConneg c)) = Unwrapped (IConneg (c\<lparr>realWriter := passed x (realWriter c)\<rparr>))"
  by (cases x)
     (auto simp: inner_Header_def inner_WriteHeader_def inner_Write_def io_Copy_sink io_Copy_live io_Copy_suppressed inner_ReadFrom_def
        connegResponseWriter_Header_def connegResponseWriter_WriteHeader_def
        connegResponseWriter_Write_def connegResponseWriter_ReadFrom_def
        sink_Write_def sink_Copy_def)

lemma run_live_unwrapped:
  "wroteHeader c \<Longrightarrow> \<not> Suppressed c \<Longrightarrow>
   run ops (Unwrapped (IConneg c)) =
     Unwrapped (IConneg (c\<lparr>realWriter := passed_all ops (realWriter c)\<rparr>))"
proof (induction ops arbitrary: c)
  case Nil
  then show ?case by simp
next
  case (Cons x xs)
  show ?case
    using Cons.prems Cons.IH[of "c\<lparr>realWriter := passed x (realWriter c)\<rparr>"]
    by (simp add: step_live_unwrapped)
qed

lemma step_live_wrapped:
  "headersSent r \<Longrightarrow> wrapped r = IConneg c \<Longrightarrow> wroteHeader c \<Longrightarrow> \<not> Suppressed c \<Longrightarrow>
   step x (Wrapped r) =
     Wrapped (r\<lparr>wrapped := IConneg (c\<lparr>realWriter := passed x (realWriter c)\<rparr>)\<rparr>)"
  by (cases x)
     (auto simp: inner_Header_def inner_WriteHeader_def inner_Write_def io_Copy_sink io_Copy_live io_Copy_suppressed inner_ReadFrom_def
        connegResponseWriter_Header_def connegResponseWriter_WriteHeader_def
        connegResponseWriter_Write_def connegResponseWriter_ReadFrom_def
        responseWithContentEncoding_Header_def responseWithContentEncoding_WriteHeader_def
        responseWithContentEncoding_Write_def rwce_ReadFrom_state
        sink_Write_def sink_Copy_def)

lemma run_live_wrapped:
  "headersSent r \<Longrightarrow> wrapped r = IConneg c \<Longrightarrow> wroteHeader c \<Longrightarrow> \<not> Suppressed c \<Longrightarrow>
   run ops (Wrapped r) =
     Wrapped (r\<lparr>wrapped := IConneg (c\<lparr>realWriter := passed_all ops (realWriter c)\<rparr>)\<rparr>)"
proof (induction ops arbitrary: r c)
  case Nil
  then show ?case by simp
next
  case (Cons x xs)
  show ?case
    using Cons.prems
      Cons.IH[of "r\<lparr>wrapped := IConneg (c\<lparr>realWriter := passed x (realWriter c)\<rparr>)\<rparr>"
                 "c\<lparr>realWriter := passed x (realWriter c)\<rparr>"]
    by (simp add: step_live_wrapped)
qed

lemma conneg_WriteHeader_fresh:
  "\<not> wroteHeader c \<Longrightarrow>
   connegResponseWriter_WriteHeader code c =
     (if code = StatusNotFound then c\<lparr>wroteHeader := True, Suppressed := True\<rparr>
      else c\<lparr>wroteHeader := True, header := None,
             realWriter := sink_WriteHeader code
               ((realWriter c)\<lparr>Hdr := append_headers (Some (buf_of c)) (Hdr (realWriter c))\<rparr>)\<rparr>)"
  by (simp add: connegResponseWriter_WriteHeader_def Let_def append_headers_buf[symmetric])

lemma buf_of_Header [simp]:
  "\<not> wroteHeader c \<Longrightarrow> buf_of (connegResponseWriter_Header f c) = f (buf_of c)"
  by (simp add: connegResponseWriter_Header_def buf_of_def)

lemma conneg_Header_fresh [simp]:
  "\<not> wroteHeader c \<Longrightarrow> wroteHeader (connegResponseWriter_Header f c) = False"
  "\<not> wroteHeader c \<Longrightarrow> Suppressed (connegResponseWriter_Header f c) = Suppressed c"
  "\<not> wroteHeader c \<Longrightarrow> realWriter (connegResponseWriter_Header f c) = realWriter c"
  by (simp_all add: connegResponseWriter_Header_def)

lemma run_conneg_fresh:
  "\<not> wroteHeader c \<Longrightarrow> \<not> Suppressed c \<Longrightarrow>
   \<exists>c'. run ops (Unwrapped (IConneg c)) = Unwrapped (IConneg c')
       \<and> probe_result ops (\<lambda>code. pre_hdr ops (buf_of c)) c c'"
proof (induction ops arbitrary: c)
  case Nil
  then show ?case by (simp add: probe_result_def)
next
  case (Cons x xs)
  show ?case
  proof (cases x)
    case (HeaderOp f)
    let ?c1 = "connegResponseWriter_Header f c"
    from Cons.prems have "\<not> wroteHeader ?c1" "\<not> Suppressed ?c1" by simp_all
    from Cons.IH[OF this] obtain c' where
      "run xs (Unwrapped (IConneg ?c1)) = Unwrapped (IConneg c')"
      "probe_result xs (\<lambda>code. pre_hdr xs (buf_of ?c1)) ?c1 c'" by blast
    with Cons.prems HeaderOp show ?thesis
      by (auto simp: inner_Header_def probe_result_def committed_def split: option.splits)
  next
    case (WriteHeaderOp code)
    show ?thesis
    proof (cases "code = StatusNotFound")
      case True
      let ?c1 = "c\<lparr>wroteHeader := True, Suppressed := True\<rparr>"
      have "conneg_of (Unwrapped (IConneg ?c1)) = Some ?c1" by simp
      from run_suppressed[OF this, of xs] obtain c' where
        c': "conneg_of (run xs (Unwrapped (IConneg ?c1))) = Some c'" "Suppressed c'"
            "wroteHeader c'" "realWriter c' = realWriter c" by auto
      have "unwrapped (run xs (Unwrapped (IConneg ?c1)))"
        by simp
      from unwrapped_conneg[OF this c'(1)] c' Cons.prems WriteHeaderOp True show ?thesis
        by (auto simp: inner_WriteHeader_def conneg_WriteHeader_fresh probe_result_def)
    next
      case False
      with Cons.prems WriteHeaderOp show ?thesis
        by (simp add: inner_WriteHeader_def conneg_WriteHeader_fresh run_live_unwrapped
              probe_result_def committed_def)
    qed
  next
    case (WriteOp b)
    with Cons.prems show ?thesis
      by (simp add: inner_Write_def connegResponseWriter_Write_def conneg_WriteHeader_fresh
            run_live_unwrapped probe_result_def committed_def sink_Write_def)
  next
    case (ReadFromOp src)
    with Cons.prems show ?thesis
      by (simp add: io_Copy_sink io_Copy_live io_Copy_suppressed inner_ReadFrom_def connegResponseWriter_ReadFrom_def conneg_WriteHeader_fresh
            run_live_unwrapped probe_result_def committed_def sink_Copy_def)
  qed
qed

lemma wrapped_conneg:
  "\<not> unwrapped w \<Longrightarrow> conneg_of w = Some c \<Longrightarrow> \<exists>r. w = Wrapped r \<and> wrapped r = IConneg c"
  by (cases w) (auto simp: split: inner.splits)

lemma rwce_WriteHeader_conneg:
  "\<not> headersSent r \<Longrightarrow> wrapped r = IConneg c \<Longrightarrow> \<not> wroteHeader c \<Longrightarrow> \<not> Suppressed c \<Longrightarrow>
   \<exists>c1. responseWithContentEncoding_WriteHeader code r =
           r\<lparr>headersSent := True, wrapped := IConneg (connegResponseWriter_WriteHeader code c1)\<rparr>
        \<and> \<not> wroteHeader c1 \<and> \<not> Suppressed c1 \<and> realWriter c1 = realWriter c
        \<and> buf_of c1 = inject (encoding r) (isConneg r) code (buf_of c)"
  by (auto simp: responseWithContentEncoding_WriteHeader_def responseWithContentEncoding_Header_def
        inner_Header_def inner_WriteHeader_def inject_def Let_def)

lemma run_wrapped_conneg_fresh:
  "\<not> headersSent r \<Longrightarrow> wrapped r = IConneg c \<Longrightarrow> \<not> wroteHeader c \<Longrightarrow> \<not> Suppressed c \<Longrightarrow>
   \<exists>r' c'. run ops (Wrapped r) = Wrapped r' \<and> wrapped r' = IConneg c'
       \<and> probe_result ops
            (\<lambda>code. inject (encoding r) (isConneg r) code (pre_hdr ops (buf_of c))) c c'"
proof (induction ops arbitrary: r c)
  case Nil
  then show ?case by (simp add: probe_result_def)
next
  case (Cons x xs)
  show ?case
  proof (cases x)
    case (HeaderOp f)
    let ?c1 = "connegResponseWriter_Header f c"
    let ?r1 = "r\<lparr>wrapped := IConneg ?c1\<rparr>"
    from Cons.prems have "\<not> headersSent ?r1" "wrapped ?r1 = IConneg ?c1"
      "\<not> wroteHeader ?c1" "\<not> Suppressed ?c1" by simp_all
    from Cons.IH[OF this] obtain r' c' where
      "run xs (Wrapped ?r1) = Wrapped r'" "wrapped r' = IConneg c'"
      "probe_result xs
         (\<lambda>code. inject (encoding ?r1) (isConneg ?r1) code (pre_hdr xs (buf_of ?c1))) ?c1 c'"
      by blast
    with Cons.prems HeaderOp show ?thesis
      by (auto simp: responseWithContentEncoding_Header_def inner_Header_def probe_result_def
            committed_def split: option.splits)
  next
    case (WriteHeaderOp code)
    from rwce_WriteHeader_conneg[OF Cons.prems, of code] obtain c1 where
      c1: "responseWithContentEncoding_WriteHeader code r =
             r\<lparr>headersSent := True, wrapped := IConneg (connegResponseWriter_WriteHeader code c1)\<rparr>"
          "\<not> wroteHeader c1" "\<not> Suppressed c1" "realWriter c1 = realWriter c"
          "buf_of c1 = inject (encoding r) (isConneg r) code (buf_of c)" by blast
    show ?thesis
    proof (cases "code = StatusNotFound")
      case True
      let ?c2 = "c1\<lparr>wroteHeader := True, Suppressed := True\<rparr>"
      let ?r2 = "r\<lparr>headersSent := True, wrapped := IConneg ?c2\<rparr>"
      have "conneg_of (Wrapped ?r2) = Some ?c2" by simp
      from run_suppressed[OF this, of xs] obtain c' where
        c': "conneg_of (run xs (Wrapped ?r2)) = Some c'" "Suppressed c'"
            "wroteHeader c'" "realWriter c' = realWriter c1" by auto
      have "\<not> unwrapped (run xs (Wrapped ?r2))" by simp
      from wrapped_conneg[OF this c'(1)] c' c1 Cons.prems WriteHeaderOp True show ?thesis
        by (auto simp: conneg_WriteHeader_fresh probe_result_def)
    next
      case False
      with Cons.prems WriteHeaderOp c1 show ?thesis
        by (simp add: conneg_WriteHeader_fresh run_live_wrapped probe_result_def committed_def)
    qed
  next
    case (WriteOp b)
    from rwce_WriteHeader_conneg[OF Cons.prems, of StatusOK] obtain c1 where
      c1: "responseWithContentEncoding_WriteHeader StatusOK r =
             r\<lparr>headersSent := True, wrapped := IConneg (connegResponseWriter_WriteHeader StatusOK c1)\<rparr>"
          "\<not> wroteHeader c1" "\<not> Suppressed c1" "realWriter c1 = realWriter c"
          "buf_of c1 = inject (encoding r) (isConneg r) StatusOK (buf_of c)" by blast
    with Cons.prems WriteOp show ?thesis
      by (simp add: responseWithContentEncoding_Write_def inner_Write_def
            connegResponseWriter_Write_def conneg_WriteHeader_fresh
            run_live_wrapped probe_result_def committed_def sink_Write_def)
  next
    case (ReadFromOp src)
    from rwce_WriteHeader_conneg[OF Cons.prems, of StatusOK] obtain c1 where
      c1: "responseWithContentEncoding_WriteHeader StatusOK r =
             r\<lparr>headersSent := True, wrapped := IConneg (connegResponseWriter_WriteHeader StatusOK c1)\<rparr>"
          "\<not> wroteHeader c1" "\<not> Suppressed c1" "realWriter c1 = realWriter c"
          "buf_of c1 = inject (encoding r) (isConneg r) StatusOK (buf_of c)" by blast
    with Cons.prems ReadFromOp show ?thesis
      by (simp add: rwce_ReadFrom_state io_Copy_sink io_Copy_live io_Copy_suppressed inner_ReadFrom_def
            connegResponseWriter_ReadFrom_def conneg_WriteHeader_fresh
            run_live_wrapped probe_result_def committed_def sink_Copy_def)
  qed
qed

text \<open>The sink itself, and a probe as a whole.\<close>

lemma run_plain: "run ops (Unwrapped (ISink s)) = Unwrapped (ISink (direct_all ops s))"
proof (induction ops arbitrary: s)
  case Nil
  show ?case by simp
next
  case (Cons x xs)
  have "step x (Unwrapped (ISink s)) = Unwrapped (ISink (direct x s))"
    by (cases x)
       (simp_all add: inner_Header_def inner_WriteHeader_def inner_Write_def io_Copy_sink io_Copy_live io_Copy_suppressed inner_ReadFrom_def
          sink_Write_def sink_Copy_def)
  with Cons.IH show ?case by simp
qed

lemma tryServe_cases:
  assumes "tryServeCompressedFile mime fs ext enc path w r = (ok, w', r')"
    and "fs (r\<lparr>URL_Path := path @ ext\<rparr>) = (ops, r2)"
  shows "r' = r2\<lparr>URL_Path := URL_Path r\<rparr>"
    and "first_status ops = None \<Longrightarrow> ok \<and> w' = w"
    and "first_status ops = Some StatusNotFound \<Longrightarrow> \<not> ok \<and> w' = w"
    and "first_status ops = Some code \<Longrightarrow> code \<noteq> StatusNotFound \<Longrightarrow>
           ok \<and> w' = committed code
                  (append_headers (Some (probe_buffer mime enc path ops code)) (Hdr w)) ops w"
proof -
  let ?crw = "\<lparr>Suppressed = False, realWriter = w, header = None, wroteHeader = False\<rparr>"
  let ?B = "probe_buffer mime enc path ops"
  have "\<exists>W c'. serveCompressedFile mime fs ext enc path True (IConneg ?crw) (r\<lparr>URL_Path := path @ ext\<rparr>)
            = (W, r2) \<and> the_inner W = IConneg c' \<and> probe_result ops ?B ?crw c'"
  proof (cases "mime (Ext path) = []")
    case True
    from run_conneg_fresh[of ?crw ops] obtain c' where
      "run ops (Unwrapped (IConneg ?crw)) = Unwrapped (IConneg c')"
      "probe_result ops (\<lambda>code. pre_hdr ops (buf_of ?crw)) ?crw c'" by auto
    with True assms(2) show ?thesis
      by (auto simp: serveCompressedFile_def handler_ServeHTTP_def the_inner_def
            probe_buffer_def buf_of_def probe_result_def split: option.splits)
  next
    case False
    let ?c1 = "connegResponseWriter_Header (Header_Set ''Content-Type'' (mime (Ext path))) ?crw"
    let ?r1 = "\<lparr>wrapped = IConneg ?c1, encoding = enc, isConneg = True, headersSent = False\<rparr>"
    have "\<not> headersSent ?r1" "wrapped ?r1 = IConneg ?c1" "\<not> wroteHeader ?c1" "\<not> Suppressed ?c1"
      by simp_all
    from run_wrapped_conneg_fresh[OF this, of ops] obtain r'' c' where
      "run ops (Wrapped ?r1) = Wrapped r''" "wrapped r'' = IConneg c'"
      "probe_result ops (\<lambda>code. inject (encoding ?r1) (isConneg ?r1) code (pre_hdr ops (buf_of ?c1)))
         ?c1 c'" by blast
    moreover have "buf_of ?c1 = Header_Set ''Content-Type'' (mime (Ext path)) Map.empty"
      "realWriter ?c1 = w"
      by (simp_all add: buf_of_def connegResponseWriter_Header_def)
    ultimately show ?thesis
      using False assms(2)
      by (auto simp: serveCompressedFile_def handler_ServeHTTP_def the_inner_def
            probe_buffer_def inner_Header_def probe_result_def Let_def
            split: option.splits)
  qed
  then obtain W c' where
    W: "serveCompressedFile mime fs ext enc path True (IConneg ?crw) (r\<lparr>URL_Path := path @ ext\<rparr>)
          = (W, r2)" "the_inner W = IConneg c'" "probe_result ops ?B ?crw c'" by blast
  with assms(1) have res: "ok = (\<not> Suppressed c')" "w' = realWriter c'"
    "r' = r2\<lparr>URL_Path := URL_Path r\<rparr>"
    by (simp_all add: tryServeCompressedFile_def Let_def)
  show "r' = r2\<lparr>URL_Path := URL_Path r\<rparr>" by (rule res)
  show "first_status ops = None \<Longrightarrow> ok \<and> w' = w"
    using W(3) res by (simp add: probe_result_def)
  show "first_status ops = Some StatusNotFound \<Longrightarrow> \<not> ok \<and> w' = w"
    using W(3) res by (simp add: probe_result_def)
  show "first_status ops = Some code \<Longrightarrow> code \<noteq> StatusNotFound \<Longrightarrow>
           ok \<and> w' = committed code (append_headers (Some (?B code)) (Hdr w)) ops w"
    using W(3) res by (simp add: probe_result_def)
qed

section \<open>The token matcher\<close>

lemma Index_found:
  "0 \<le> Index h t \<Longrightarrow>
   nat (Index h t) + length t \<le> length h \<and> take (length t) (drop (nat (Index h t)) h) = t"
proof (induction h)
  case Nil
  then show ?case by (simp split: if_splits)
next
  case (Cons c s)
  show ?case
  proof (cases "take (length t) (c # s) = t")
    case True
    then have "length (take (length t) (c # s)) = length t" by simp
    then have "length t \<le> length (c # s)"
      by (simp add: min_def split: if_splits)
    with True show ?thesis by simp
  next
    case False
    with Cons.prems have nn: "0 \<le> Index s t"
      by (simp add: Let_def split: if_splits)
    with False have "Index (c # s) t = Index s t + 1" by (simp add: Let_def)
    moreover have "nat (Index s t + 1) = Suc (nat (Index s t))" using nn by simp
    ultimately show ?thesis using Cons.IH[OF nn] by simp
  qed
qed

lemma token_delimited_iff: "token_delimited h t = (\<exists>i\<le>length h. delimited_at h t i)"
proof -
  have "set [0..<Suc (length h)] = {i. i \<le> length h}" by auto
  then show ?thesis
    unfolding token_delimited_def list_ex_iff by blast
qed

text \<open>
  One direction of the specification's equivalence holds: when \<open>hasToken\<close> answers true,
  the token does occur delimited (at its first occurrence).
\<close>

lemma hasToken_sound: "hasToken h t \<Longrightarrow> token_delimited h t"
proof -
  assume a: "hasToken h t"
  let ?i = "Index h t"
  from a have nn: "0 \<le> ?i" by (simp add: hasToken_def Let_def)
  from Index_found[OF nn] have f: "nat ?i + length t \<le> length h"
    "take (length t) (drop (nat ?i) h) = t" by simp_all
  have e1: "nat (?i - 1) = nat ?i - 1" and e2: "nat (?i + int (length t)) = nat ?i + length t"
    using nn by simp_all
  from a have "?i = 0 \<or> isSeparator (h ! nat (?i - 1))"
    by (simp add: hasToken_def Let_def)
  with nn have l: "nat ?i = 0 \<or> isSeparator (h ! (nat ?i - 1))"
    unfolding e1 by auto
  from a have "?i + int (length t) = int (length h)
      \<or> isSeparator (h ! nat (?i + int (length t)))"
    by (simp add: hasToken_def Let_def)
  with nn have r: "nat ?i + length t = length h \<or> isSeparator (h ! (nat ?i + length t))"
    unfolding e2 by auto
  have "delimited_at h t (nat ?i)"
    using f l r by (simp add: delimited_at_def)
  moreover have "nat ?i \<le> length h" using f by simp
  ultimately show ?thesis unfolding token_delimited_iff by blast
qed

lemma Index_first:
  "0 \<le> Index h t \<Longrightarrow> j < nat (Index h t) \<Longrightarrow> take (length t) (drop j h) \<noteq> t"
proof (induction h arbitrary: j)
  case Nil
  then show ?case by (simp split: if_splits)
next
  case (Cons c s)
  show ?case
  proof (cases "take (length t) (c # s) = t")
    case True
    with Cons.prems show ?thesis by simp
  next
    case False
    with Cons.prems have nn: "0 \<le> Index s t" and i: "Index (c # s) t = Index s t + 1"
      by (simp_all add: Let_def split: if_splits)
    show ?thesis
    proof (cases j)
      case 0
      with False show ?thesis by simp
    next
      case (Suc j')
      with Cons.prems(2) i nn have "j' < nat (Index s t)" by simp
      from Cons.IH[OF nn this] Suc show ?thesis by simp
    qed
  qed
qed

lemma Index_none:
  "Index h t < 0 \<Longrightarrow> j \<le> length h \<Longrightarrow> take (length t) (drop j h) \<noteq> t"
proof (induction h arbitrary: j)
  case Nil
  then show ?case by (auto split: if_splits)
next
  case (Cons c s)
  from Cons.prems(1) have f: "take (length t) (c # s) \<noteq> t" and n: "Index s t < 0"
    by (auto simp: Let_def split: if_splits)
  show ?case
  proof (cases j)
    case 0
    with f show ?thesis by simp
  next
    case (Suc j')
    with Cons.prems(2) have "j' \<le> length s" by simp
    from Cons.IH[OF n this] Suc show ?thesis by simp
  qed
qed

text \<open>
  What \<open>hasToken\<close> decides exactly: whether the first occurrence of the token is
  delimited.
\<close>

lemma hasToken_first_occurrence:
  "hasToken h t = (\<exists>i. first_occurrence h t i \<and> delimited_at h t i)"
proof
  assume a: "hasToken h t"
  let ?i = "Index h t"
  from a have nn: "0 \<le> ?i" by (simp add: hasToken_def Let_def)
  from Index_found[OF nn] have f: "nat ?i + length t \<le> length h"
    "take (length t) (drop (nat ?i) h) = t" by simp_all
  have e1: "nat (?i - 1) = nat ?i - 1" and e2: "nat (?i + int (length t)) = nat ?i + length t"
    using nn by simp_all
  from a have "?i = 0 \<or> isSeparator (h ! nat (?i - 1))"
    by (simp add: hasToken_def Let_def)
  with nn have l: "nat ?i = 0 \<or> isSeparator (h ! (nat ?i - 1))"
    unfolding e1 by auto
  from a have "?i + int (length t) = int (length h)
      \<or> isSeparator (h ! nat (?i + int (length t)))"
    by (simp add: hasToken_def Let_def)
  with nn have r: "nat ?i + length t = length h \<or> isSeparator (h ! (nat ?i + length t))"
    unfolding e2 by auto
  have "delimited_at h t (nat ?i)"
    using f l r by (simp add: delimited_at_def)
  moreover have "first_occurrence h t (nat ?i)"
    using f Index_first[OF nn] by (simp add: first_occurrence_def)
  ultimately show "\<exists>i. first_occurrence h t i \<and> delimited_at h t i" by blast
next
  assume "\<exists>i. first_occurrence h t i \<and> delimited_at h t i"
  then obtain i where fo: "first_occurrence h t i" and d: "delimited_at h t i" by blast
  let ?i = "Index h t"
  have nn: "0 \<le> ?i"
  proof (rule ccontr)
    assume "\<not> 0 \<le> ?i"
    then have "?i < 0" by simp
    from Index_none[OF this, of i] fo show False by (simp add: first_occurrence_def)
  qed
  from Index_found[OF nn] have f: "take (length t) (drop (nat ?i) h) = t"
    "nat ?i + length t \<le> length h" by simp_all
  have "nat ?i = i"
  proof (rule ccontr)
    assume ne: "nat ?i \<noteq> i"
    show False
    proof (cases "nat ?i < i")
      case True
      with fo f show False by (simp add: first_occurrence_def)
    next
      case False
      with ne have "i < nat ?i" by simp
      from Index_first[OF nn this] fo show False by (simp add: first_occurrence_def)
    qed
  qed
  then have i: "?i = int i" using nn by simp
  have e1: "nat (int i - 1) = i - 1" by simp
  have e2: "nat (int i + int (length t)) = i + length t" by simp
  from d show "hasToken h t"
    unfolding hasToken_def Let_def i e1 e2
    by (auto simp: delimited_at_def)
qed

text \<open>
  C1. The claim: \<open>hasToken h t\<close> is true if and only if \<open>t\<close> occurs in \<open>h\<close> delimited on
  both sides by the start or end of the string or one of space, tab, comma, semicolon.
  The other direction fails, because only the first occurrence is examined: in the header
  \<open>x-gzip, gzip\<close> the token \<open>gzip\<close> stands delimited (a space before it, the end of the
  string after it), and \<open>hasToken\<close> answers false, the first occurrence being the tail of
  \<open>x-gzip\<close>.
\<close>

theorem hasToken_misses_later_occurrence:
  "hasToken ''x-gzip, gzip'' ''gzip'' = False \<and> token_delimited ''x-gzip, gzip'' ''gzip''"
  by (simp add: hasToken_def token_delimited_def delimited_at_def isSeparator_def)

section \<open>The deferred-header shim once suppressed\<close>

text \<open>
  C3, as claimed: once suppressed, \<open>Write\<close> and \<open>ReadFrom\<close> both report the full length of
  their input. For \<open>ReadFrom\<close> that is not so: a suppressed shim given a reader holding
  three bytes returns the count 0.
\<close>

theorem suppressed_ReadFrom_reports_zero:
  "fst (connegResponseWriter_ReadFrom \<lparr>unread = ''abc'', writerTo = False\<rparr>
          \<lparr>Suppressed = True, realWriter = \<lparr>Hdr = Map.empty, Events = []\<rparr>,
           header = None, wroteHeader = True\<rparr>)
     \<noteq> (length (unread \<lparr>unread = ''abc'', writerTo = False\<rparr>), None)"
  by (simp add: connegResponseWriter_ReadFrom_def)

text \<open>
  C3, amended: once the shim is suppressed, every \<open>Write\<close> leaves the shim and with it the
  real sink unchanged and returns the length of its input with no error; every \<open>ReadFrom\<close>
  leaves the shim, the real sink and the reader unchanged (nothing is read) and returns
  the count 0 with no error. The shim being unchanged, it is still suppressed for the
  next call.
\<close>

theorem suppressed_calls_are_noops:
  "Suppressed w \<Longrightarrow>
   connegResponseWriter_Write b w = ((length b, None), w) \<and>
   connegResponseWriter_ReadFrom src w = ((0, None), src, w)"
  by (simp add: connegResponseWriter_Write_def connegResponseWriter_ReadFrom_def)

theorem suppressed_calls_are_noops_witness:
  "Suppressed \<lparr>Suppressed = True, realWriter = \<lparr>Hdr = Map.empty, Events = []\<rparr>,
           header = Some [''Content-Type'' \<mapsto> [''text/html'']], wroteHeader = True\<rparr> \<and>
   realWriter (snd (connegResponseWriter_Write ''abc''
     \<lparr>Suppressed = True, realWriter = \<lparr>Hdr = Map.empty, Events = []\<rparr>,
           header = Some [''Content-Type'' \<mapsto> [''text/html'']], wroteHeader = True\<rparr>))
     = \<lparr>Hdr = Map.empty, Events = []\<rparr> \<and>
   fst (connegResponseWriter_Write ''abc''
     \<lparr>Suppressed = True, realWriter = \<lparr>Hdr = Map.empty, Events = []\<rparr>,
           header = Some [''Content-Type'' \<mapsto> [''text/html'']], wroteHeader = True\<rparr>) = (3, None) \<and>
   fst (connegResponseWriter_ReadFrom \<lparr>unread = ''abc'', writerTo = False\<rparr>
     \<lparr>Suppressed = True, realWriter = \<lparr>Hdr = Map.empty, Events = []\<rparr>,
           header = Some [''Content-Type'' \<mapsto> [''text/html'']], wroteHeader = True\<rparr>) = (0, None)"
  using suppressed_calls_are_noops[of "\<lparr>Suppressed = True, realWriter = \<lparr>Hdr = Map.empty, Events = []\<rparr>,
           header = Some [''Content-Type'' \<mapsto> [''text/html'']], wroteHeader = True\<rparr>" "''abc''"
      "\<lparr>unread = ''abc'', writerTo = False\<rparr>"]
  by simp

section \<open>The streaming-compression selector\<close>

text \<open>
  C8. \<open>GetWriter\<close> always adds \<open>Accept-Encoding\<close> to the values of \<open>Vary\<close> in the sink's
  header set (appending to those already there, leaving every other header and the
  calls received by the sink as they were), and it returns a Gzip writer around the sink
  exactly when \<open>hasToken\<close> finds \<open>gzip\<close> in the request's \<open>Accept-Encoding\<close>; otherwise
  the sink itself, with no layer around it.
\<close>

theorem GetWriter_contract:
  "is_gzip (GetWriter w r) = hasToken (Header_Get (Header r) ''Accept-Encoding'') ''gzip'' \<and>
   underlying (GetWriter w r) =
     w\<lparr>Hdr := (Hdr w)(''Vary'' \<mapsto> values_of (Hdr w) ''Vary'' @ [''Accept-Encoding''])\<rparr> \<and>
   ''Accept-Encoding'' \<in> set (values_of (Hdr (underlying (GetWriter w r))) ''Vary'') \<and>
   Events (underlying (GetWriter w r)) = Events w"
  by (simp add: GetWriter_def Let_def Header_Add_def values_of_def)

section \<open>The first status call on the deferred-header shim\<close>

lemma run_suppressed_sink:
  "Suppressed c \<Longrightarrow> wroteHeader c \<Longrightarrow>
   the_sink (the_inner (run ops (Unwrapped (IConneg c)))) = realWriter c"
proof -
  assume a: "Suppressed c" "wroteHeader c"
  have "conneg_of (Unwrapped (IConneg c)) = Some c" by simp
  from run_suppressed[OF this a, of ops] obtain c' where
    c': "conneg_of (run ops (Unwrapped (IConneg c))) = Some c'" "realWriter c' = realWriter c"
    by blast
  have "unwrapped (run ops (Unwrapped (IConneg c)))" by simp
  from unwrapped_conneg[OF this c'(1)] c'(2) show ?thesis
    by (simp add: the_inner_def the_sink_def)
qed

text \<open>
  C4. On a \<open>connegResponseWriter\<close> whose header is not yet written, \<open>WriteHeader\<close> with
  the not-found status sets \<open>wroteHeader\<close> and \<open>Suppressed\<close> and changes nothing else: the
  real sink receives neither the call nor any buffered header, and whatever calls follow,
  the real sink stays as it was (the buffered headers are dropped for good). With any
  other status the shim keeps its \<open>Suppressed\<close> flag, empties its buffer, and the real
  sink receives one more call, the status call, with a header set in which every buffered
  key holds the sink's earlier values followed by the buffered ones, every other key being
  unchanged.
\<close>

theorem conneg_first_WriteHeader:
  assumes "\<not> wroteHeader w"
  shows "connegResponseWriter_WriteHeader StatusNotFound w
           = w\<lparr>wroteHeader := True, Suppressed := True\<rparr>
       \<and> (\<forall>ops. the_sink (the_inner
             (run ops (Unwrapped (IConneg (connegResponseWriter_WriteHeader StatusNotFound w)))))
             = realWriter w)
       \<and> (code \<noteq> StatusNotFound \<longrightarrow>
            (let w' = connegResponseWriter_WriteHeader code w in
               Suppressed w' = Suppressed w \<and> wroteHeader w' \<and> header w' = None \<and>
               Events (realWriter w')
                 = Events (realWriter w) @ [WroteHeader code (Hdr (realWriter w'))] \<and>
               (\<forall>k. Hdr (realWriter w') k =
                  (case buf_of w k of
                     None \<Rightarrow> Hdr (realWriter w) k
                   | Some v \<Rightarrow> Some (values_of (Hdr (realWriter w)) k @ v)))))"
proof (intro conjI allI impI)
  show n: "connegResponseWriter_WriteHeader StatusNotFound w
           = w\<lparr>wroteHeader := True, Suppressed := True\<rparr>"
    using assms by (simp add: conneg_WriteHeader_fresh)
  show "the_sink (the_inner
          (run ops (Unwrapped (IConneg (connegResponseWriter_WriteHeader StatusNotFound w)))))
        = realWriter w" for ops
    unfolding n using run_suppressed_sink[of "w\<lparr>wroteHeader := True, Suppressed := True\<rparr>" ops]
    by simp
  assume "code \<noteq> StatusNotFound"
  with assms show "let w' = connegResponseWriter_WriteHeader code w in
               Suppressed w' = Suppressed w \<and> wroteHeader w' \<and> header w' = None \<and>
               Events (realWriter w')
                 = Events (realWriter w) @ [WroteHeader code (Hdr (realWriter w'))] \<and>
               (\<forall>k. Hdr (realWriter w') k =
                  (case buf_of w k of
                     None \<Rightarrow> Hdr (realWriter w) k
                   | Some v \<Rightarrow> Some (values_of (Hdr (realWriter w)) k @ v)))"
    by (simp add: conneg_WriteHeader_fresh sink_WriteHeader_def append_headers_def Let_def)
qed

theorem conneg_first_WriteHeader_witness:
  "\<not> wroteHeader w4
   \<and> Suppressed (connegResponseWriter_WriteHeader StatusNotFound w4)
   \<and> the_sink (the_inner (run [HeaderOp (Header_Set ''X'' ''y''), WriteOp ''abc'']
        (Unwrapped (IConneg (connegResponseWriter_WriteHeader StatusNotFound w4)))))
       = realWriter w4
   \<and> (301::int) \<noteq> StatusNotFound
   \<and> Hdr (realWriter (connegResponseWriter_WriteHeader 301 w4)) ''Vary''
       = Some [''Origin'', ''Accept-Encoding'']
   \<and> Hdr (realWriter (connegResponseWriter_WriteHeader 301 w4)) ''Content-Type''
       = Some [''text/html'']
   \<and> length (Events (realWriter (connegResponseWriter_WriteHeader 301 w4))) = 1"
proof -
  have h: "\<not> wroteHeader w4" by (simp add: w4_def)
  note t = conneg_first_WriteHeader[OF h, of 301]
  from t have a: "connegResponseWriter_WriteHeader StatusNotFound w4
      = w4\<lparr>wroteHeader := True, Suppressed := True\<rparr>" by blast
  from t have b: "the_sink (the_inner (run [HeaderOp (Header_Set ''X'' ''y''), WriteOp ''abc'']
        (Unwrapped (IConneg (connegResponseWriter_WriteHeader StatusNotFound w4)))))
       = realWriter w4" by blast
  from t have c: "Events (realWriter (connegResponseWriter_WriteHeader 301 w4))
       = Events (realWriter w4) @ [WroteHeader 301 (Hdr (realWriter (connegResponseWriter_WriteHeader 301 w4)))]"
    and d: "\<And>k. Hdr (realWriter (connegResponseWriter_WriteHeader 301 w4)) k =
                  (case buf_of w4 k of
                     None \<Rightarrow> Hdr (realWriter w4) k
                   | Some v \<Rightarrow> Some (values_of (Hdr (realWriter w4)) k @ v))"
    by (simp_all add: Let_def)
  have e: "Hdr (realWriter (connegResponseWriter_WriteHeader 301 w4)) ''Vary''
       = Some [''Origin'', ''Accept-Encoding'']"
    unfolding d by (simp add: w4_def buf_of_def values_of_def)
  have f: "Hdr (realWriter (connegResponseWriter_WriteHeader 301 w4)) ''Content-Type''
       = Some [''text/html'']"
    unfolding d by (simp add: w4_def buf_of_def values_of_def)
  have g: "length (Events (realWriter (connegResponseWriter_WriteHeader 301 w4))) = 1"
    unfolding c by (simp add: w4_def)
  show ?thesis using h a b e f g by simp
qed

section \<open>The auto-header shim on a success status\<close>

lemma overwritten_inject: "overwritten enc conneg h = inject enc conneg StatusOK h"
  by (rule ext) (simp add: overwritten_def inject_def Header_Set_def Let_def)

lemma inject_nothing [simp]: "inject [] False code h = h"
  by (simp add: inject_def)

text \<open>
  C10. When the auto-header shim, its headers not yet sent, is given the success status,
  the header set of the writer it wraps becomes \<open>overwritten\<close> of what it was:
  \<open>Content-Encoding\<close> holds exactly the one value \<open>encoding\<close> (when that is non-empty; it
  is left alone otherwise) and \<open>Vary\<close> holds exactly the one value \<open>Accept-Encoding\<close> (in
  the negotiated configuration; left alone otherwise), whatever values stood under those
  names before, and every other header is unchanged. The state after the call is this, for
  each writer the shim can wrap:

  \<^item> over a sink, the sink's header set is overwritten and the sink records the success
    status with that header set;
  \<^item> over a deferred-header shim that has not seen a status, the buffer is overwritten and
    then flushed: each buffered name's values are appended to the real writer's values
    for it, the buffer is dropped, and the real writer records the success status. So the
    values the delegate had buffered under the two names are replaced, and the real
    writer's own earlier values under them are kept in front;
  \<^item> over a deferred-header shim that has passed a status on, the real writer's header
    set is overwritten and no second status reaches it;
  \<^item> over a suppressed deferred-header shim, only the buffer is overwritten and the real
    writer is untouched.
\<close>

theorem auto_header_overwrites:
  assumes "\<not> headersSent r"
  shows
  "(\<forall>s. wrapped r = ISink s \<longrightarrow>
      responseWithContentEncoding_WriteHeader StatusOK r =
        r\<lparr>headersSent := True,
          wrapped := ISink
            (s\<lparr>Hdr := overwritten (encoding r) (isConneg r) (Hdr s),
               Events := Events s @
                 [WroteHeader StatusOK (overwritten (encoding r) (isConneg r) (Hdr s))]\<rparr>)\<rparr>)
   \<and> (\<forall>c. wrapped r = IConneg c \<and> \<not> wroteHeader c \<longrightarrow>
        (let b = overwritten (encoding r) (isConneg r) (buf_of c);
             m = (\<lambda>k. case b k of
                          None \<Rightarrow> Hdr (realWriter c) k
                        | Some v \<Rightarrow> Some (values_of (Hdr (realWriter c)) k @ v))
         in responseWithContentEncoding_WriteHeader StatusOK r =
              r\<lparr>headersSent := True,
                wrapped := IConneg
                  (c\<lparr>wroteHeader := True, header := None,
                     realWriter := (realWriter c)
                       \<lparr>Hdr := m,
                        Events := Events (realWriter c) @ [WroteHeader StatusOK m]\<rparr>\<rparr>)\<rparr>))
   \<and> (\<forall>c. wrapped r = IConneg c \<and> wroteHeader c \<and> \<not> Suppressed c \<longrightarrow>
        responseWithContentEncoding_WriteHeader StatusOK r =
          r\<lparr>headersSent := True,
            wrapped := IConneg
              (c\<lparr>realWriter := (realWriter c)
                    \<lparr>Hdr := overwritten (encoding r) (isConneg r) (Hdr (realWriter c))\<rparr>\<rparr>)\<rparr>)
   \<and> (\<forall>c. wrapped r = IConneg c \<and> wroteHeader c \<and> Suppressed c \<longrightarrow>
        (\<exists>hd. responseWithContentEncoding_WriteHeader StatusOK r =
                 r\<lparr>headersSent := True, wrapped := IConneg (c\<lparr>header := hd\<rparr>)\<rparr>
             \<and> buf_of (c\<lparr>header := hd\<rparr>)
                 = overwritten (encoding r) (isConneg r) (buf_of c)))"
proof (intro conjI allI impI)
  fix s assume "wrapped r = ISink s"
  with assms show "responseWithContentEncoding_WriteHeader StatusOK r =
        r\<lparr>headersSent := True,
          wrapped := ISink
            (s\<lparr>Hdr := overwritten (encoding r) (isConneg r) (Hdr s),
               Events := Events s @
                 [WroteHeader StatusOK (overwritten (encoding r) (isConneg r) (Hdr s))]\<rparr>)\<rparr>"
    by (simp add: rwce_WriteHeader_sink overwritten_inject sink_WriteHeader_def)
next
  fix c assume a: "wrapped r = IConneg c \<and> \<not> wroteHeader c"
  let ?f = "inject (encoding r) (isConneg r) StatusOK"
  let ?c1 = "if encoding r = [] \<and> \<not> isConneg r then c else c\<lparr>header := Some (?f (buf_of c))\<rparr>"
  have e: "responseWithContentEncoding_WriteHeader StatusOK r
      = r\<lparr>headersSent := True,
          wrapped := IConneg (connegResponseWriter_WriteHeader StatusOK ?c1)\<rparr>"
    using assms a
    by (auto simp: responseWithContentEncoding_WriteHeader_def
          responseWithContentEncoding_Header_def inner_Header_def inner_WriteHeader_def
          connegResponseWriter_Header_def inject_def buf_of_def Let_def)
  have b: "buf_of ?c1 = ?f (buf_of c)" by (simp add: buf_of_def)
  have n: "\<not> wroteHeader ?c1" "realWriter ?c1 = realWriter c" using a by simp_all
  have "connegResponseWriter_WriteHeader StatusOK ?c1
      = c\<lparr>wroteHeader := True, header := None,
           realWriter := sink_WriteHeader StatusOK
             ((realWriter c)\<lparr>Hdr := append_headers (Some (?f (buf_of c))) (Hdr (realWriter c))\<rparr>)\<rparr>"
    using conneg_WriteHeader_fresh[OF n(1), of StatusOK] b n(2) by auto
  with e show "let b = overwritten (encoding r) (isConneg r) (buf_of c);
             m = (\<lambda>k. case b k of
                          None \<Rightarrow> Hdr (realWriter c) k
                        | Some v \<Rightarrow> Some (values_of (Hdr (realWriter c)) k @ v))
         in responseWithContentEncoding_WriteHeader StatusOK r =
              r\<lparr>headersSent := True,
                wrapped := IConneg
                  (c\<lparr>wroteHeader := True, header := None,
                     realWriter := (realWriter c)
                       \<lparr>Hdr := m,
                        Events := Events (realWriter c) @ [WroteHeader StatusOK m]\<rparr>\<rparr>)\<rparr>"
    by (simp add: Let_def overwritten_inject append_headers_def sink_WriteHeader_def)
next
  fix c assume a: "wrapped r = IConneg c \<and> wroteHeader c \<and> \<not> Suppressed c"
  with assms show "responseWithContentEncoding_WriteHeader StatusOK r =
          r\<lparr>headersSent := True,
            wrapped := IConneg
              (c\<lparr>realWriter := (realWriter c)
                    \<lparr>Hdr := overwritten (encoding r) (isConneg r) (Hdr (realWriter c))\<rparr>\<rparr>)\<rparr>"
    by (auto simp: responseWithContentEncoding_WriteHeader_def
          responseWithContentEncoding_Header_def inner_Header_def inner_WriteHeader_def
          connegResponseWriter_Header_def connegResponseWriter_WriteHeader_def
          overwritten_inject inject_def Let_def)
next
  fix c assume a: "wrapped r = IConneg c \<and> wroteHeader c \<and> Suppressed c"
  let ?f = "inject (encoding r) (isConneg r) StatusOK"
  let ?hd = "if encoding r = [] \<and> \<not> isConneg r then header c else Some (?f (buf_of c))"
  have "responseWithContentEncoding_WriteHeader StatusOK r =
                 r\<lparr>headersSent := True, wrapped := IConneg (c\<lparr>header := ?hd\<rparr>)\<rparr>"
    using assms a
    by (auto simp: responseWithContentEncoding_WriteHeader_def
          responseWithContentEncoding_Header_def inner_Header_def inner_WriteHeader_def
          connegResponseWriter_Header_def connegResponseWriter_WriteHeader_def
          inject_def buf_of_def Let_def)
  moreover have "buf_of (c\<lparr>header := ?hd\<rparr>)
      = overwritten (encoding r) (isConneg r) (buf_of c)"
    by (simp add: overwritten_inject buf_of_def)
  ultimately show "\<exists>hd. responseWithContentEncoding_WriteHeader StatusOK r =
                 r\<lparr>headersSent := True, wrapped := IConneg (c\<lparr>header := hd\<rparr>)\<rparr>
             \<and> buf_of (c\<lparr>header := hd\<rparr>)
                 = overwritten (encoding r) (isConneg r) (buf_of c)"
    by blast
qed

theorem auto_header_overwrites_witness:
  "\<not> headersSent r10 \<and> encoding r10 = ''br'' \<and> isConneg r10
   \<and> (\<exists>s m. wrapped r10 = ISink s
        \<and> Hdr s ''Content-Encoding'' = Some [''identity'']
        \<and> Hdr s ''Vary'' = Some [''Origin'', ''Cookie'']
        \<and> Hdr s ''Content-Type'' = Some [''text/html'']
        \<and> responseWithContentEncoding_WriteHeader StatusOK r10
            = r10\<lparr>headersSent := True,
                  wrapped := ISink (s\<lparr>Hdr := m, Events := Events s @ [WroteHeader StatusOK m]\<rparr>)\<rparr>
        \<and> m ''Content-Encoding'' = Some [''br'']
        \<and> m ''Vary'' = Some [''Accept-Encoding'']
        \<and> m ''Content-Type'' = Some [''text/html''])
   \<and> \<not> headersSent r10_deferred \<and> encoding r10_deferred = ''br'' \<and> isConneg r10_deferred
   \<and> wrapped r10_deferred = IConneg c10 \<and> \<not> wroteHeader c10
   \<and> buf_of c10 ''Content-Encoding'' = Some [''identity'']
   \<and> buf_of c10 ''Vary'' = Some [''Origin'']
   \<and> Hdr (realWriter c10) ''Vary'' = Some [''Cookie'']
   \<and> (\<exists>m. responseWithContentEncoding_WriteHeader StatusOK r10_deferred
            = r10_deferred\<lparr>headersSent := True,
                wrapped := IConneg
                  (c10\<lparr>wroteHeader := True, header := None,
                       realWriter := (realWriter c10)
                         \<lparr>Hdr := m,
                          Events := Events (realWriter c10) @ [WroteHeader StatusOK m]\<rparr>\<rparr>)\<rparr>
        \<and> m ''Content-Encoding'' = Some [''br'']
        \<and> m ''Vary'' = Some [''Cookie'', ''Accept-Encoding'']
        \<and> m ''Content-Type'' = Some [''text/html''])"
proof -
  let ?s = "\<lparr>Hdr = [''Content-Encoding'' \<mapsto> [''identity''],
                    ''Vary'' \<mapsto> [''Origin'', ''Cookie''],
                    ''Content-Type'' \<mapsto> [''text/html'']],
             Events = []\<rparr>"
  let ?m = "overwritten ''br'' True (Hdr ?s)"
  have h: "\<not> headersSent r10" by (simp add: r10_def)
  have e: "encoding r10 = ''br''" "isConneg r10" "wrapped r10 = ISink ?s"
    by (simp_all add: r10_def)
  from auto_header_overwrites[OF h] e
  have s1: "responseWithContentEncoding_WriteHeader StatusOK r10
            = r10\<lparr>headersSent := True,
                  wrapped := ISink (?s\<lparr>Hdr := ?m, Events := Events ?s @ [WroteHeader StatusOK ?m]\<rparr>)\<rparr>"
    by simp
  have s2: "?m ''Content-Encoding'' = Some [''br'']" "?m ''Vary'' = Some [''Accept-Encoding'']"
    "?m ''Content-Type'' = Some [''text/html'']"
    by (simp_all add: overwritten_def)
  have s3: "Hdr ?s ''Content-Encoding'' = Some [''identity'']"
    "Hdr ?s ''Vary'' = Some [''Origin'', ''Cookie'']"
    "Hdr ?s ''Content-Type'' = Some [''text/html'']"
    by simp_all
  have sink: "\<exists>s m. wrapped r10 = ISink s
        \<and> Hdr s ''Content-Encoding'' = Some [''identity'']
        \<and> Hdr s ''Vary'' = Some [''Origin'', ''Cookie'']
        \<and> Hdr s ''Content-Type'' = Some [''text/html'']
        \<and> responseWithContentEncoding_WriteHeader StatusOK r10
            = r10\<lparr>headersSent := True,
                  wrapped := ISink (s\<lparr>Hdr := m, Events := Events s @ [WroteHeader StatusOK m]\<rparr>)\<rparr>
        \<and> m ''Content-Encoding'' = Some [''br'']
        \<and> m ''Vary'' = Some [''Accept-Encoding'']
        \<and> m ''Content-Type'' = Some [''text/html'']"
    using e(3) s1 s2 s3 by blast
  let ?b = "overwritten ''br'' True (buf_of c10)"
  let ?n = "\<lambda>k. case ?b k of
                  None \<Rightarrow> Hdr (realWriter c10) k
                | Some v \<Rightarrow> Some (values_of (Hdr (realWriter c10)) k @ v)"
  have h': "\<not> headersSent r10_deferred" by (simp add: r10_deferred_def)
  have e': "encoding r10_deferred = ''br''" "isConneg r10_deferred"
    "wrapped r10_deferred = IConneg c10" "\<not> wroteHeader c10"
    by (simp_all add: r10_deferred_def c10_def)
  from auto_header_overwrites[OF h'] e'
  have d1: "responseWithContentEncoding_WriteHeader StatusOK r10_deferred
            = r10_deferred\<lparr>headersSent := True,
                wrapped := IConneg
                  (c10\<lparr>wroteHeader := True, header := None,
                       realWriter := (realWriter c10)
                         \<lparr>Hdr := ?n,
                          Events := Events (realWriter c10) @ [WroteHeader StatusOK ?n]\<rparr>\<rparr>)\<rparr>"
    by (simp add: Let_def)
  have d2: "?n ''Content-Encoding'' = Some [''br'']"
    "?n ''Vary'' = Some [''Cookie'', ''Accept-Encoding'']"
    "?n ''Content-Type'' = Some [''text/html'']"
    by (simp_all add: overwritten_def c10_def buf_of_def values_of_def)
  have d3: "buf_of c10 ''Content-Encoding'' = Some [''identity'']"
    "buf_of c10 ''Vary'' = Some [''Origin'']"
    "Hdr (realWriter c10) ''Vary'' = Some [''Cookie'']"
    by (simp_all add: c10_def buf_of_def)
  have deferred: "\<exists>m. responseWithContentEncoding_WriteHeader StatusOK r10_deferred
            = r10_deferred\<lparr>headersSent := True,
                wrapped := IConneg
                  (c10\<lparr>wroteHeader := True, header := None,
                       realWriter := (realWriter c10)
                         \<lparr>Hdr := m,
                          Events := Events (realWriter c10) @ [WroteHeader StatusOK m]\<rparr>\<rparr>)\<rparr>
        \<and> m ''Content-Encoding'' = Some [''br'']
        \<and> m ''Vary'' = Some [''Cookie'', ''Accept-Encoding'']
        \<and> m ''Content-Type'' = Some [''text/html'']"
    using d1 d2 by blast
  from h e(1,2) sink h' e' d3 deferred show ?thesis by blast
qed

section \<open>The delay-injection handler\<close>

text \<open>
  C9. With \<open>sleep\<close> at its default \<open>time.Sleep\<close>: when the \<open>delay\<close> parameter is
  non-empty and parses to a duration that is not negative, the flow is blocked for that
  duration and the wrapped handler runs next; when the parameter is absent or empty, does
  not parse, or parses to a negative duration, the wrapped handler runs on the unchanged
  state (nothing is slept and no error is reported; for a negative duration \<open>sleep\<close> is
  still called and returns at once). In every case the wrapped handler is invoked exactly
  once, after the delay.
\<close>

theorem Delay_contract:
  "(Values_Get q ''delay'' \<noteq> [] \<and> ParseDuration (Values_Get q ''delay'') = Inr dd \<and> 0 \<le> dd
      \<longrightarrow> Delay time_Sleep ParseDuration h q s = h (s\<lparr>blocked := blocked s + dd\<rparr>)) \<and>
   (Values_Get q ''delay'' = []
      \<or> (\<exists>e. ParseDuration (Values_Get q ''delay'') = Inl e)
      \<or> (\<exists>n. ParseDuration (Values_Get q ''delay'') = Inr n \<and> n < 0)
      \<longrightarrow> Delay time_Sleep ParseDuration h q s = h s) \<and>
   invoked (Delay time_Sleep ParseDuration invoke q s)
     = invoked s @ [blocked (Delay time_Sleep ParseDuration invoke q s)]"
  by (auto simp: Delay_def time_Sleep_def invoke_def Let_def split: sum.splits)

theorem Delay_contract_witness:
  "Values_Get [''delay'' \<mapsto> [''10ms'']] ''delay'' \<noteq> []
   \<and> parse_example (Values_Get [''delay'' \<mapsto> [''10ms'']] ''delay'') = Inr 10000000
   \<and> (0::int) \<le> 10000000
   \<and> Delay time_Sleep parse_example invoke [''delay'' \<mapsto> [''10ms'']] \<lparr>blocked = 0, invoked = []\<rparr>
       = \<lparr>blocked = 10000000, invoked = [10000000]\<rparr>
   \<and> (\<exists>e. parse_example (Values_Get [''delay'' \<mapsto> [''invalid'']] ''delay'') = Inl e)
   \<and> Delay time_Sleep parse_example invoke [''delay'' \<mapsto> [''invalid'']] \<lparr>blocked = 0, invoked = []\<rparr>
       = \<lparr>blocked = 0, invoked = [0]\<rparr>
   \<and> (\<exists>n. parse_example (Values_Get [''delay'' \<mapsto> [''-5s'']] ''delay'') = Inr n \<and> n < 0)
   \<and> Delay time_Sleep parse_example invoke [''delay'' \<mapsto> [''-5s'']] \<lparr>blocked = 0, invoked = []\<rparr>
       = \<lparr>blocked = 0, invoked = [0]\<rparr>"
proof -
  let ?s = "\<lparr>blocked = 0, invoked = []\<rparr>"
  have p1: "Values_Get [''delay'' \<mapsto> [''10ms'']] ''delay'' \<noteq> []"
    "parse_example (Values_Get [''delay'' \<mapsto> [''10ms'']] ''delay'') = Inr 10000000"
    "(0::int) \<le> 10000000"
    by (simp_all add: Values_Get_def parse_example_def)
  have p2: "\<exists>e. parse_example (Values_Get [''delay'' \<mapsto> [''invalid'']] ''delay'') = Inl e"
    by (simp add: Values_Get_def parse_example_def)
  have p3: "\<exists>n. parse_example (Values_Get [''delay'' \<mapsto> [''-5s'']] ''delay'') = Inr n \<and> n < 0"
    by (simp add: Values_Get_def parse_example_def)
  have a: "Delay time_Sleep parse_example invoke [''delay'' \<mapsto> [''10ms'']] ?s
       = invoke (?s\<lparr>blocked := blocked ?s + 10000000\<rparr>)"
    using Delay_contract[of "[''delay'' \<mapsto> [''10ms'']]" parse_example 10000000 invoke ?s] p1
    by blast
  have b: "Delay time_Sleep parse_example invoke [''delay'' \<mapsto> [''invalid'']] ?s = invoke ?s"
    using Delay_contract[of "[''delay'' \<mapsto> [''invalid'']]" parse_example 0 invoke ?s] p2
    by blast
  have c: "Delay time_Sleep parse_example invoke [''delay'' \<mapsto> [''-5s'']] ?s = invoke ?s"
    using Delay_contract[of "[''delay'' \<mapsto> [''-5s'']]" parse_example 0 invoke ?s] p3
    by blast
  show ?thesis
    unfolding a b c using p1 p2 p3 by (simp add: invoke_def)
qed

section \<open>The handler, path by path\<close>

lemma enc_lookup:
  "(case encodingByExtensionMap e of None \<Rightarrow> [] | Some x \<Rightarrow> x) = [] \<longleftrightarrow> e \<noteq> ''.br'' \<and> e \<noteq> ''.gz''"
  by (simp add: encodingByExtensionMap_def)

lemma tryServe_failed:
  assumes "\<not> fst (tryServeCompressedFile mime fs ext enc path w r)"
  shows "fst (snd (tryServeCompressedFile mime fs ext enc path w r)) = w"
proof -
  obtain ok w' r' where t: "tryServeCompressedFile mime fs ext enc path w r = (ok, w', r')"
    by (cases "tryServeCompressedFile mime fs ext enc path w r") auto
  obtain ops r2 where f: "fs (r\<lparr>URL_Path := path @ ext\<rparr>) = (ops, r2)"
    by (cases "fs (r\<lparr>URL_Path := path @ ext\<rparr>)") auto
  from assms t have nok: "\<not> ok" by simp
  show ?thesis
  proof (cases "first_status ops")
    case None
    from tryServe_cases(2)[OF t f None] nok show ?thesis by simp
  next
    case (Some code)
    show ?thesis
    proof (cases "code = StatusNotFound")
      case True
      with tryServe_cases(3)[OF t f] Some t show ?thesis by simp
    next
      case False
      from tryServe_cases(4)[OF t f Some False] nok show ?thesis by simp
    qed
  qed
qed

lemma ServeHTTP_unfold:
  assumes "negotiated r"
  shows "ServeHTTP mime fs w r =
     (let t1 = (if accepts r ''br''
                then tryServeCompressedFile mime fs ''.br'' ''br'' (logical_path r) w r
                else (False, w, r))
      in if fst t1 then snd t1
         else let t2 = (if accepts r ''gzip''
                        then tryServeCompressedFile mime fs ''.gz'' ''gzip'' (logical_path r)
                               (fst (snd t1)) (snd (snd t1))
                        else (False, snd t1))
              in if fst t2 then snd t2 else fallback fs (fst (snd t2)) (snd (snd t2)))"
proof -
  from assms have n: "\<not> HasSuffix (URL_Path r) ''/index.html''"
    "(case encodingByExtensionMap (Ext (URL_Path r)) of None \<Rightarrow> [] | Some x \<Rightarrow> x) = []"
    by (simp_all add: negotiated_def enc_lookup)
  show ?thesis
    unfolding ServeHTTP_def fallback_def accepts_def logical_path_def
    by (simp add: n Let_def case_prod_beta)
qed

lemma tryServe_request:
  "snd (snd (tryServeCompressedFile mime fs ext enc path w r))
     = (snd (fs (r\<lparr>URL_Path := path @ ext\<rparr>)))\<lparr>URL_Path := URL_Path r\<rparr>"
proof -
  obtain ok w' r' where t: "tryServeCompressedFile mime fs ext enc path w r = (ok, w', r')"
    by (cases "tryServeCompressedFile mime fs ext enc path w r") auto
  obtain ops r2 where f: "fs (r\<lparr>URL_Path := path @ ext\<rparr>) = (ops, r2)"
    by (cases "fs (r\<lparr>URL_Path := path @ ext\<rparr>)") auto
  from tryServe_cases(1)[OF t f] t f show ?thesis by simp
qed

lemma handler_request: "snd (handler_ServeHTTP fs W r) = snd (fs r)"
  by (simp add: handler_ServeHTTP_def split: prod.splits)

lemma serveCompressedFile_request:
  "snd (serveCompressedFile mime fs ext enc path c i r) = snd (fs r)"
  by (simp add: serveCompressedFile_def Let_def handler_request)

lemma ServeHTTP_request:
  assumes "\<forall>q. snd (fs q) = q"
  shows "snd (ServeHTTP mime fs w r) = r"
proof (cases "negotiated r")
  case True
  have t: "snd (snd (tryServeCompressedFile mime fs ext enc path w' r)) = r" for ext enc path w'
    unfolding tryServe_request using assms by simp
  have f: "snd (fallback fs w' r) = r" for w'
    using assms by (simp add: fallback_def case_prod_beta handler_request)
  show ?thesis
    unfolding ServeHTTP_unfold[OF True] by (simp add: Let_def t f)
next
  case False
  then consider "HasSuffix (URL_Path r) ''/index.html''"
    | "\<not> HasSuffix (URL_Path r) ''/index.html''"
      "(case encodingByExtensionMap (Ext (URL_Path r)) of None \<Rightarrow> [] | Some x \<Rightarrow> x) \<noteq> []"
    by (auto simp: negotiated_def enc_lookup)
  then show ?thesis
  proof cases
    case 1
    then show ?thesis
      using assms by (simp add: ServeHTTP_def case_prod_beta handler_request)
  next
    case 2
    then show ?thesis
      using assms
      by (simp add: ServeHTTP_def Let_def case_prod_beta serveCompressedFile_request)
  qed
qed

text \<open>The events of a committed sink, and the header keys a sequence of calls keeps.\<close>

lemma statuses_append: "statuses (xs @ ys) = statuses xs @ statuses ys"
  by (induction xs rule: statuses.induct) simp_all

lemma statuses_Wrote [simp]: "statuses (map Wrote xs) = []"
  by (induction xs) simp_all

lemma body_Wrote [simp]: "body (map Wrote xs) = concat xs"
  by (induction xs) simp_all

lemma passed_all_events: "Events (passed_all ops s) = Events s @ map Wrote (chunks ops)"
proof (induction ops arbitrary: s)
  case Nil
  show ?case by simp
next
  case (Cons x xs)
  show ?case
    by (cases x) (simp_all add: Cons.IH sink_Write_def sink_Copy_def)
qed

lemma chunks_after_commit: "chunks (after_commit ops) = chunks ops"
  by (induction ops rule: after_commit.induct) simp_all

lemma committed_events:
  "Events (committed code h ops s) = Events s @ WroteHeader code h # map Wrote (chunks ops)"
  by (simp add: committed_def passed_all_events chunks_after_commit sink_WriteHeader_def)

lemma new_events_committed:
  "Events s0 = Events s \<Longrightarrow>
   new_events s0 (committed code h ops s) = WroteHeader code h # map Wrote (chunks ops)"
  by (simp add: new_events_def committed_events)

lemma new_events_same: "Events s = Events s0 \<Longrightarrow> new_events s0 s = []"
  by (simp add: new_events_def)

lemma keeps_Cons:
  "keeps k (x # xs) \<longleftrightarrow> (case x of HeaderOp f \<Rightarrow> (\<forall>h. f h k = h k) | _ \<Rightarrow> True) \<and> keeps k xs"
  by (cases x) (auto simp: keeps_def)

lemma keeps_pre_hdr: "keeps k ops \<Longrightarrow> pre_hdr ops h k = h k"
  by (induction ops h rule: pre_hdr.induct) (simp_all add: keeps_Cons)

lemma keeps_after_commit: "keeps k ops \<Longrightarrow> keeps k (after_commit ops)"
  by (induction ops rule: after_commit.induct) (simp_all add: keeps_Cons)

lemma keeps_passed_all: "keeps k ops \<Longrightarrow> Hdr (passed_all ops s) k = Hdr s k"
proof (induction ops arbitrary: s)
  case Nil
  show ?case by simp
next
  case (Cons x xs)
  then show ?case
    by (cases x) (simp_all add: keeps_Cons sink_Write_def sink_Copy_def)
qed

lemma keeps_committed: "keeps k ops \<Longrightarrow> Hdr (committed code h ops s) k = h k"
  by (simp add: committed_def keeps_passed_all keeps_after_commit sink_WriteHeader_def)

lemma keeps_direct_all:
  "keeps k ops \<Longrightarrow>
   \<exists>evs. Events (direct_all ops s) = Events s @ evs
        \<and> (\<forall>(code, h) \<in> set (statuses evs). h k = Hdr s k)
        \<and> Hdr (direct_all ops s) k = Hdr s k"
proof (induction ops arbitrary: s)
  case Nil
  show ?case by simp
next
  case (Cons x xs)
  from Cons.prems have kx: "keeps k xs" by (simp add: keeps_Cons)
  from Cons.IH[OF kx, of "direct x s"] obtain evs where
    evs: "Events (direct_all xs (direct x s)) = Events (direct x s) @ evs"
         "\<forall>(code, h) \<in> set (statuses evs). h k = Hdr (direct x s) k"
         "Hdr (direct_all xs (direct x s)) k = Hdr (direct x s) k" by blast
  have hk: "Hdr (direct x s) k = Hdr s k"
    using Cons.prems
    by (cases x) (simp_all add: keeps_Cons sink_WriteHeader_def sink_Write_def sink_Copy_def)
  have "\<exists>e1. Events (direct x s) = Events s @ e1
           \<and> (\<forall>(code, h) \<in> set (statuses e1). h k = Hdr s k)"
  proof (cases x)
    case (HeaderOp f)
    then show ?thesis by simp
  next
    case (WriteHeaderOp code)
    then show ?thesis by (simp add: sink_WriteHeader_def)
  next
    case (WriteOp b)
    then show ?thesis by (simp add: sink_Write_def)
  next
    case (ReadFromOp src)
    then show ?thesis by (cases "unread src = []") (simp_all add: sink_Copy_def)
  qed
  then obtain e1 where e1: "Events (direct x s) = Events s @ e1"
    "\<forall>(code, h) \<in> set (statuses e1). h k = Hdr s k" by blast
  show ?case
    using evs e1 hk
    by (intro exI[of _ "e1 @ evs"]) (auto simp: statuses_append)
qed

text \<open>
  The sink that \<open>ServeHTTP\<close> leaves: for a negotiated request it is unchanged in its
  events, or committed by a served variant, or committed by the fallback; for any other
  request it is what the file server did to the sink itself, or what it did through the
  auto-header shim of a direct request.
\<close>

lemma wrapped_sink_result:
  "the_sink (the_inner (fst (handler_ServeHTTP fs
      (Wrapped \<lparr>wrapped = ISink s, encoding = e, isConneg = c, headersSent = False\<rparr>) q)))
    = (case first_status (fst (fs q)) of
         None \<Rightarrow> s\<lparr>Hdr := pre_hdr (fst (fs q)) (Hdr s)\<rparr>
       | Some code \<Rightarrow>
           committed code (inject e c code (pre_hdr (fst (fs q)) (Hdr s))) (fst (fs q)) s)"
  by (simp add: handler_ServeHTTP_def case_prod_beta run_wrapped_sink the_inner_def the_sink_def
        committed_def split: option.splits)

lemma tryServe_result:
  fixes r :: "'a request_scheme" and fs :: "'a handler" and path ext :: string
  defines "ops \<equiv> fst (fs (r\<lparr>URL_Path := path @ ext\<rparr>))"
  shows "fst (tryServeCompressedFile mime fs ext enc path w r)
           = (first_status ops \<noteq> Some StatusNotFound)"
    and "fst (snd (tryServeCompressedFile mime fs ext enc path w r))
           = (case first_status ops of
                None \<Rightarrow> w
              | Some code \<Rightarrow>
                  if code = StatusNotFound then w
                  else committed code
                         (append_headers (Some (probe_buffer mime enc path ops code)) (Hdr w))
                         ops w)"
proof -
  obtain ok w' r' where t: "tryServeCompressedFile mime fs ext enc path w r = (ok, w', r')"
    by (cases "tryServeCompressedFile mime fs ext enc path w r") auto
  obtain r2 where f: "fs (r\<lparr>URL_Path := path @ ext\<rparr>) = (ops, r2)"
    unfolding ops_def by (cases "fs (r\<lparr>URL_Path := path @ ext\<rparr>)") auto
  note c = tryServe_cases(2-4)[OF t f]
  show "fst (tryServeCompressedFile mime fs ext enc path w r)
           = (first_status ops \<noteq> Some StatusNotFound)"
    using c t by (cases "first_status ops") auto
  show "fst (snd (tryServeCompressedFile mime fs ext enc path w r))
           = (case first_status ops of
                None \<Rightarrow> w
              | Some code \<Rightarrow>
                  if code = StatusNotFound then w
                  else committed code
                         (append_headers (Some (probe_buffer mime enc path ops code)) (Hdr w))
                         ops w)"
    using c t by (cases "first_status ops") auto
qed

lemma negotiated_sink:
  fixes r :: "'a request_scheme" and fs :: "'a handler"
  assumes "negotiated r"
  obtains (unchanged) "Events (fst (ServeHTTP mime fs w r)) = Events w"
  | (variant) q ext enc code where
      "accepts r enc" "URL_Path q = logical_path r @ ext" "ext \<noteq> []"
      "(ext, enc) = (''.br'', ''br'') \<or> (ext, enc) = (''.gz'', ''gzip'')"
      "first_status (fst (fs q)) = Some code" "code \<noteq> StatusNotFound"
      "fst (ServeHTTP mime fs w r) =
         committed code
           (append_headers (Some (probe_buffer mime enc (logical_path r) (fst (fs q)) code)) (Hdr w))
           (fst (fs q)) w"
      "(q = br_probe r \<and> enc = ''br'') \<or> (q = gz_probe fs r \<and> enc = ''gzip'')"
  | (fallback) q code where
      "first_status (fst (fs q)) = Some code"
      "fst (ServeHTTP mime fs w r) =
         committed code (inject [] True code (pre_hdr (fst (fs q)) (Hdr w))) (fst (fs q)) w"
proof -
  let ?p = "logical_path r"
  let ?t1 = "tryServeCompressedFile mime fs ''.br'' ''br'' ?p w r"
  let ?T1 = "if accepts r ''br'' then ?t1 else (False, w, r)"
  let ?r1 = "snd (snd ?T1)"
  let ?t2 = "tryServeCompressedFile mime fs ''.gz'' ''gzip'' ?p w ?r1"
  let ?T2 = "if accepts r ''gzip'' then ?t2 else (False, w, ?r1)"
  let ?r2 = "snd (snd ?T2)"
  have probe: thesis
    if a: "accepts r enc" and e: "(ext, enc) = (''.br'', ''br'') \<or> (ext, enc) = (''.gz'', ''gzip'')"
      and ok: "fst (tryServeCompressedFile mime fs ext enc ?p w q)"
      and S: "fst (ServeHTTP mime fs w r) = fst (snd (tryServeCompressedFile mime fs ext enc ?p w q))"
      and i: "(q\<lparr>URL_Path := ?p @ ext\<rparr> = br_probe r \<and> enc = ''br'')
              \<or> (q\<lparr>URL_Path := ?p @ ext\<rparr> = gz_probe fs r \<and> enc = ''gzip'')"
    for ext enc and q :: "'a request_scheme"
  proof -
    let ?q = "q\<lparr>URL_Path := ?p @ ext\<rparr>"
    from ok have ns: "first_status (fst (fs ?q)) \<noteq> Some StatusNotFound"
      by (simp add: tryServe_result(1))
    show thesis
    proof (cases "first_status (fst (fs ?q))")
      case None
      with S have "fst (ServeHTTP mime fs w r) = w" by (simp add: tryServe_result(2))
      then show thesis using unchanged by simp
    next
      case (Some code)
      with ns have c: "code \<noteq> StatusNotFound" by simp
      from e have "ext \<noteq> []" by auto
      moreover have "URL_Path ?q = ?p @ ext" by simp
      moreover from S Some c have "fst (ServeHTTP mime fs w r) =
         committed code
           (append_headers (Some (probe_buffer mime enc ?p (fst (fs ?q)) code)) (Hdr w))
           (fst (fs ?q)) w"
        by (simp add: tryServe_result(2))
      ultimately show thesis using variant[of enc ?q ext code] a e Some c i by blast
    qed
  qed
  have w1: "\<not> fst ?T1 \<Longrightarrow> fst (snd ?T1) = w"
    using tryServe_failed[of mime fs "''.br''" "''br''" ?p w r] by (simp split: if_splits)
  have w2: "\<not> fst ?T2 \<Longrightarrow> fst (snd ?T2) = w"
    using tryServe_failed[of mime fs "''.gz''" "''gzip''" ?p w ?r1] by (simp split: if_splits)
  note U = ServeHTTP_unfold[OF assms, of mime fs w]
  show thesis
  proof (cases "fst ?T1")
    case True
    then have a: "accepts r ''br''" and ok: "fst ?t1" by (simp_all split: if_splits)
    from True a have "fst (ServeHTTP mime fs w r) = fst (snd ?t1)"
      unfolding U by (simp add: Let_def)
    from probe[OF a _ ok this] show thesis by (simp add: br_probe_def)
  next
    case False
    note f1 = this
    from w1[OF f1] have s1: "fst (snd ?T1) = w" .
    show thesis
    proof (cases "fst ?T2")
      case True
      then have a: "accepts r ''gzip''" and ok: "fst ?t2" by (simp_all split: if_splits)
      from f1 s1 True a have "fst (ServeHTTP mime fs w r) = fst (snd ?t2)"
        unfolding U by (simp add: Let_def)
      moreover have "?r1\<lparr>URL_Path := ?p @ ''.gz''\<rparr> = gz_probe fs r"
        by (simp add: gz_probe_def br_probe_def tryServe_request)
      ultimately show thesis using probe[OF a _ ok] by simp
    next
      case False
      note f2 = this
      from w2[OF f2] have s2: "fst (snd ?T2) = w" .
      have T2: "(if accepts r ''gzip''
                 then tryServeCompressedFile mime fs ''.gz'' ''gzip'' ?p (fst (snd ?T1)) (snd (snd ?T1))
                 else (False, snd ?T1)) = ?T2"
        using s1 by (simp add: prod_eq_iff)
      have "ServeHTTP mime fs w r = fallback fs w ?r2"
        unfolding U Let_def T2 using f1 f2 s2 by simp
      then have S: "fst (ServeHTTP mime fs w r)
          = (case first_status (fst (fs ?r2)) of
               None \<Rightarrow> w\<lparr>Hdr := pre_hdr (fst (fs ?r2)) (Hdr w)\<rparr>
             | Some code \<Rightarrow>
                 committed code (inject [] True code (pre_hdr (fst (fs ?r2)) (Hdr w))) (fst (fs ?r2)) w)"
        by (simp add: fallback_def case_prod_beta wrapped_sink_result)
      show thesis
      proof (cases "first_status (fst (fs ?r2))")
        case None
        with S show thesis using unchanged by simp
      next
        case (Some code)
        with S show thesis using fallback[of ?r2 code] by simp
      qed
    qed
  qed
qed

lemma direct_sink:
  fixes r :: "'a request_scheme" and fs :: "'a handler"
  assumes "\<not> negotiated r"
  obtains (plain) "fst (ServeHTTP mime fs w r) = direct_all (fst (fs r)) w"
  | (idle) "Events (fst (ServeHTTP mime fs w r)) = Events w"
      "\<exists>ct. Hdr (fst (ServeHTTP mime fs w r))
         = pre_hdr (fst (fs r)) (Header_Set ''Content-Type'' ct (Hdr w))"
  | (wrapped) ct enc code where
      "first_status (fst (fs r)) = Some code"
      "fst (ServeHTTP mime fs w r) =
         committed code
           (inject enc False code (pre_hdr (fst (fs r)) (Header_Set ''Content-Type'' ct (Hdr w))))
           (fst (fs r)) (w\<lparr>Hdr := Header_Set ''Content-Type'' ct (Hdr w)\<rparr>)"
proof -
  let ?ops = "fst (fs r)"
  have pl: "the_sink (the_inner (fst (handler_ServeHTTP fs (Unwrapped (ISink w)) r)))
      = direct_all ?ops w"
    by (simp add: handler_ServeHTTP_def case_prod_beta run_plain the_inner_def the_sink_def)
  from assms consider "HasSuffix (URL_Path r) ''/index.html''"
    | "\<not> HasSuffix (URL_Path r) ''/index.html''"
      "(case encodingByExtensionMap (Ext (URL_Path r)) of None \<Rightarrow> [] | Some x \<Rightarrow> x) \<noteq> []"
    by (auto simp: negotiated_def enc_lookup)
  then show thesis
  proof cases
    case 1
    then have "fst (ServeHTTP mime fs w r) = direct_all ?ops w"
      by (simp add: ServeHTTP_def case_prod_beta pl)
    then show thesis by (rule plain)
  next
    case 2
    let ?ext = "Ext (URL_Path r)"
    let ?enc = "case encodingByExtensionMap ?ext of None \<Rightarrow> [] | Some x \<Rightarrow> x"
    let ?path = "take (length (URL_Path r) - length ?ext) (URL_Path r)"
    let ?ct = "mime (Ext ?path)"
    from 2 have S: "fst (ServeHTTP mime fs w r)
        = the_sink (the_inner (fst (serveCompressedFile mime fs ?ext ?enc ?path False (ISink w) r)))"
      by (simp add: ServeHTTP_def Let_def case_prod_beta)
    show thesis
    proof (cases "?ct = []")
      case True
      with S have "fst (ServeHTTP mime fs w r) = direct_all ?ops w"
        by (simp add: serveCompressedFile_def Let_def pl)
      then show thesis by (rule plain)
    next
      case False
      let ?w = "w\<lparr>Hdr := Header_Set ''Content-Type'' ?ct (Hdr w)\<rparr>"
      from False S have S': "fst (ServeHTTP mime fs w r)
          = (case first_status ?ops of
               None \<Rightarrow> ?w\<lparr>Hdr := pre_hdr ?ops (Hdr ?w)\<rparr>
             | Some code \<Rightarrow>
                 committed code (inject ?enc False code (pre_hdr ?ops (Hdr ?w))) ?ops ?w)"
        by (simp add: serveCompressedFile_def Let_def inner_Header_def wrapped_sink_result)
      show thesis
      proof (cases "first_status ?ops")
        case None
        with S' have "Events (fst (ServeHTTP mime fs w r)) = Events w"
          "Hdr (fst (ServeHTTP mime fs w r))
             = pre_hdr ?ops (Header_Set ''Content-Type'' ?ct (Hdr w))" by simp_all
        then show thesis using idle by blast
      next
        case (Some code)
        with S' show thesis using wrapped[of code ?enc ?ct] by simp
      qed
    qed
  qed
qed

lemma append_headers_Some:
  "append_headers (Some b) h k = (case b k of None \<Rightarrow> h k | Some v \<Rightarrow> Some (values_of h k @ v))"
  by (simp add: append_headers_def)

lemma probe_buffer_keeps:
  "keeps k ops \<Longrightarrow> k \<noteq> ''Content-Type'' \<Longrightarrow> code \<noteq> StatusOK \<Longrightarrow>
   probe_buffer mime enc path ops code k = None"
  by (simp add: probe_buffer_def Let_def inject_def keeps_pre_hdr Header_Set_def)

lemma probe_buffer_success:
  "mime (Ext path) \<noteq> [] \<Longrightarrow>
   probe_buffer mime enc path ops StatusOK ''Vary'' = Some [''Accept-Encoding'']"
  "mime (Ext path) \<noteq> [] \<Longrightarrow> enc \<noteq> [] \<Longrightarrow>
   probe_buffer mime enc path ops StatusOK ''Content-Encoding'' = Some [enc]"
  by (simp_all add: probe_buffer_def Let_def inject_def Header_Set_def)

section \<open>The example file server\<close>

lemma fs_example_keeps:
  "k \<noteq> ''Content-Type'' \<Longrightarrow> keeps k (fst (fs_example q))"
  by (auto simp: keeps_def fs_example_def Header_Set_def split: option.splits)

section \<open>The request around a probe\<close>

text \<open>
  C7. Whatever the file server does, \<open>tryServeCompressedFile\<close> returns with the request's
  path equal to what it was on entry, whether the probe was suppressed or served; the
  request it leaves is the one the file server left, with the path put back, so the
  handler's own code touches no other field. With a file server that leaves requests as
  it finds them, the request after a probe and after the whole of \<open>ServeHTTP\<close> is the
  request as it was.
\<close>

theorem probe_restores_path:
  "URL_Path (snd (snd (tryServeCompressedFile mime fs ext enc path w r))) = URL_Path r
   \<and> snd (snd (tryServeCompressedFile mime fs ext enc path w r))
       = (snd (fs (r\<lparr>URL_Path := path @ ext\<rparr>)))\<lparr>URL_Path := URL_Path r\<rparr>
   \<and> ((\<forall>q. snd (fs q) = q) \<longrightarrow>
        snd (snd (tryServeCompressedFile mime fs ext enc path w r)) = r
        \<and> snd (ServeHTTP mime fs w r) = r)"
proof (intro conjI impI)
  show "snd (snd (tryServeCompressedFile mime fs ext enc path w r))
       = (snd (fs (r\<lparr>URL_Path := path @ ext\<rparr>)))\<lparr>URL_Path := URL_Path r\<rparr>"
    by (rule tryServe_request)
  then show "URL_Path (snd (snd (tryServeCompressedFile mime fs ext enc path w r))) = URL_Path r"
    by simp
  assume p: "\<forall>q. snd (fs q) = q"
  then show "snd (snd (tryServeCompressedFile mime fs ext enc path w r)) = r"
    unfolding tryServe_request by simp
  from p show "snd (ServeHTTP mime fs w r) = r"
    by (rule ServeHTTP_request)
qed

theorem probe_restores_path_witness:
  "(\<forall>q::request. snd (fs_example q) = q)
   \<and> snd (snd (tryServeCompressedFile mime_example fs_example ''.br'' ''br'' ''/foo.html''
                 sink_example (request_example ''/foo.html'' ''br,gzip'')))
       = request_example ''/foo.html'' ''br,gzip''
   \<and> snd (ServeHTTP mime_example fs_example sink_example (request_example ''/foo.html'' ''br,gzip''))
       = request_example ''/foo.html'' ''br,gzip''
   \<and> URL_Path (snd (fs_rewriting (request_example ''foo.html.br'' ''br''))) = ''/foo.html.br''
   \<and> URL_Path (snd (snd (tryServeCompressedFile mime_example fs_rewriting ''.br'' ''br'' ''foo.html''
                 sink_example (request_example ''foo.html'' ''br''))))
       = ''foo.html''"
proof -
  have p: "\<forall>q::request. snd (fs_example q) = q"
    by (simp add: fs_example_def split: option.splits)
  have e: "URL_Path (snd (fs_rewriting (request_example ''foo.html.br'' ''br''))) = ''/foo.html.br''"
    "URL_Path (request_example ''foo.html'' ''br'') = ''foo.html''"
    by code_simp+
  note a = probe_restores_path[of mime_example fs_example "''.br''" "''br''" "''/foo.html''"
      sink_example "request_example ''/foo.html'' ''br,gzip''"]
  note b = probe_restores_path[of mime_example fs_rewriting "''.br''" "''br''" "''foo.html''"
      sink_example "request_example ''foo.html'' ''br''"]
  from a p have "snd (snd (tryServeCompressedFile mime_example fs_example ''.br'' ''br'' ''/foo.html''
                 sink_example (request_example ''/foo.html'' ''br,gzip'')))
       = request_example ''/foo.html'' ''br,gzip''"
    and "snd (ServeHTTP mime_example fs_example sink_example (request_example ''/foo.html'' ''br,gzip''))
       = request_example ''/foo.html'' ''br,gzip''"
    by blast+
  moreover from b e have "URL_Path (snd (snd (tryServeCompressedFile mime_example fs_rewriting ''.br'' ''br'' ''foo.html''
                 sink_example (request_example ''foo.html'' ''br''))))
       = ''foo.html''" by simp
  ultimately show ?thesis using p e by simp
qed

section \<open>The Vary header\<close>

text \<open>
  C2, as claimed: every negotiated response carries \<open>Vary: Accept-Encoding\<close>. It does
  not when the response is not a success: a negotiated request for a path that the file
  server does not have (and no \<open>Accept-Encoding\<close>) gets the not-found response of the
  fallback, and its header set has no \<open>Vary\<close>, the auto-header shim injecting on the
  success status only.
\<close>

theorem vary_absent_on_not_found:
  "negotiated (request_example ''/missing.html'' [])
   \<and> digest (fst (ServeHTTP mime_example fs_example sink_example
                     (request_example ''/missing.html'' [])))
       = ([(StatusNotFound, [], [])], ''404 page not found'')
   \<and> Hdr (fst (ServeHTTP mime_example fs_example sink_example
                  (request_example ''/missing.html'' []))) ''Vary'' = None"
  by code_simp

text \<open>
  C2, amended. For a negotiated request, every status call with the success status that
  reaches the sink carries \<open>Accept-Encoding\<close> among the values of \<open>Vary\<close>, provided the
  MIME type of the logical path's extension is known or every probe the handler makes
  is suppressed (\<open>probes_suppressed\<close>: the file server answers not-found for the \<open>.br\<close>
  variant when \<open>br\<close> is accepted and for the \<open>.gz\<close> variant when \<open>gzip\<close> is accepted), so
  that the response is the fallback's. The fallback always goes through the auto-header
  shim, whatever the MIME type and whether or not probes came before it; a variant does
  only when the MIME type is known. For a direct compressed-file request
  or an index-redirect passthrough, the handler adds no \<open>Vary\<close>: when the file server
  itself leaves that header alone, it is in the sink's header set, and at every status
  call, what it was before the call (absent if it was absent).
\<close>

theorem vary_on_negotiated_success:
  fixes r :: "'a request_scheme" and fs :: "'a handler"
  shows
  "(negotiated r \<and> (mime (Ext (logical_path r)) \<noteq> [] \<or> probes_suppressed fs r)
      \<longrightarrow> (\<forall>(code, h) \<in> set (statuses (new_events w (fst (ServeHTTP mime fs w r)))).
             code = StatusOK \<longrightarrow> ''Accept-Encoding'' \<in> set (values_of h ''Vary'')))
   \<and> (\<not> negotiated r \<and> (\<forall>q. keeps ''Vary'' (fst (fs q)))
      \<longrightarrow> Hdr (fst (ServeHTTP mime fs w r)) ''Vary'' = Hdr w ''Vary''
          \<and> (\<forall>(code, h) \<in> set (statuses (new_events w (fst (ServeHTTP mime fs w r)))).
                h ''Vary'' = Hdr w ''Vary''))"
proof (intro conjI impI)
  let ?S = "fst (ServeHTTP mime fs w r)"
  assume a: "negotiated r \<and> (mime (Ext (logical_path r)) \<noteq> [] \<or> probes_suppressed fs r)"
  then have n: "negotiated r" by simp
  from n show "\<forall>(code, h) \<in> set (statuses (new_events w ?S)).
             code = StatusOK \<longrightarrow> ''Accept-Encoding'' \<in> set (values_of h ''Vary'')"
  proof (cases rule: negotiated_sink[of r mime fs w])
    case unchanged
    then show ?thesis by (simp add: new_events_same)
  next
    case (variant q ext enc code)
    have "\<not> probes_suppressed fs r"
      using variant(1,5,6,8) by (auto simp: probes_suppressed_def)
    with a have m: "mime (Ext (logical_path r)) \<noteq> []" by simp
    show ?thesis
      unfolding variant(7)
      using m
      by (simp add: new_events_committed append_headers_Some probe_buffer_success(1)
            values_of_def)
  next
    case (fallback q code)
    show ?thesis
      unfolding fallback(2)
      by (simp add: new_events_committed inject_def Header_Set_def values_of_def)
  qed
next
  let ?S = "fst (ServeHTTP mime fs w r)"
  assume a: "\<not> negotiated r \<and> (\<forall>q. keeps ''Vary'' (fst (fs q)))"
  then have n: "\<not> negotiated r" and k: "keeps ''Vary'' (fst (fs r))" by simp_all
  from n have "Hdr ?S ''Vary'' = Hdr w ''Vary''
          \<and> (\<forall>(code, h) \<in> set (statuses (new_events w ?S)). h ''Vary'' = Hdr w ''Vary'')"
  proof (cases rule: direct_sink[of r mime fs w])
    case plain
    from keeps_direct_all[OF k, of w] show ?thesis
      unfolding plain by (auto simp: new_events_def)
  next
    case idle
    then show ?thesis
      using k by (auto simp: new_events_same keeps_pre_hdr Header_Set_def)
  next
    case (wrapped ct enc code)
    show ?thesis
      unfolding wrapped(2) using k
      by (simp add: new_events_committed keeps_committed inject_def keeps_pre_hdr Header_Set_def)
  qed
  then show "Hdr ?S ''Vary'' = Hdr w ''Vary''"
    and "\<forall>(code, h) \<in> set (statuses (new_events w ?S)). h ''Vary'' = Hdr w ''Vary''"
    by simp_all
qed

theorem vary_on_negotiated_success_witness:
  "negotiated (request_example ''/foo.html'' ''gzip'')
   \<and> mime_example (Ext (logical_path (request_example ''/foo.html'' ''gzip''))) \<noteq> []
   \<and> list_all (\<lambda>(code, h). code = StatusOK \<and> ''Accept-Encoding'' \<in> set (values_of h ''Vary''))
        (statuses (new_events sink_example
           (fst (ServeHTTP mime_example fs_example sink_example (request_example ''/foo.html'' ''gzip'')))))
   \<and> digest (fst (ServeHTTP mime_example fs_example sink_example (request_example ''/foo.html'' ''gzip'')))
       = ([(StatusOK, [''gzip''], [''Accept-Encoding''])], ''foo, gzip'')
   \<and> negotiated (request_example ''/notes'' ''br'')
   \<and> mime_example (Ext (logical_path (request_example ''/notes'' ''br''))) = []
   \<and> accepts (request_example ''/notes'' ''br'') ''br''
   \<and> probes_suppressed fs_example (request_example ''/notes'' ''br'')
   \<and> list_all (\<lambda>(code, h). code = StatusOK \<and> ''Accept-Encoding'' \<in> set (values_of h ''Vary''))
        (statuses (new_events sink_example
           (fst (ServeHTTP mime_example fs_example sink_example (request_example ''/notes'' ''br'')))))
   \<and> digest (fst (ServeHTTP mime_example fs_example sink_example (request_example ''/notes'' ''br'')))
       = ([(StatusOK, [], [''Accept-Encoding''])], ''notes, uncompressed'')
   \<and> \<not> negotiated (request_example ''/foo.html.br'' ''gzip'')
   \<and> (\<forall>q::request. keeps ''Vary'' (fst (fs_example q)))
   \<and> Hdr (fst (ServeHTTP mime_example fs_example sink_example (request_example ''/foo.html.br'' ''gzip'')))
        ''Vary'' = None
   \<and> digest (fst (ServeHTTP mime_example fs_example sink_example (request_example ''/foo.html.br'' ''gzip'')))
       = ([(StatusOK, [''br''], [])], ''foo, brotli'')"
proof -
  let ?r1 = "request_example ''/foo.html'' ''gzip''"
  let ?r2 = "request_example ''/foo.html.br'' ''gzip''"
  let ?r3 = "request_example ''/notes'' ''br''"
  let ?S1 = "fst (ServeHTTP mime_example fs_example sink_example ?r1)"
  let ?S2 = "fst (ServeHTTP mime_example fs_example sink_example ?r2)"
  let ?S3 = "fst (ServeHTTP mime_example fs_example sink_example ?r3)"
  have n1: "negotiated ?r1" and m1: "mime_example (Ext (logical_path ?r1)) \<noteq> []"
    and n2: "\<not> negotiated ?r2"
    and d1: "digest ?S1 = ([(StatusOK, [''gzip''], [''Accept-Encoding''])], ''foo, gzip'')"
    and d2: "digest ?S2 = ([(StatusOK, [''br''], [])], ''foo, brotli'')"
    and c1: "map fst (statuses (new_events sink_example ?S1)) = [StatusOK]"
    and v0: "Hdr sink_example ''Vary'' = None"
    by code_simp+
  have n3: "negotiated ?r3" and m3: "mime_example (Ext (logical_path ?r3)) = []"
    and a3: "accepts ?r3 ''br''" and p3: "probes_suppressed fs_example ?r3"
    and d3: "digest ?S3 = ([(StatusOK, [], [''Accept-Encoding''])], ''notes, uncompressed'')"
    and c3: "map fst (statuses (new_events sink_example ?S3)) = [StatusOK]"
    by code_simp+
  have k: "\<forall>q::request. keeps ''Vary'' (fst (fs_example q))"
    by (simp add: fs_example_keeps)
  note t1 = vary_on_negotiated_success[of ?r1 mime_example fs_example sink_example]
  note t2 = vary_on_negotiated_success[of ?r2 mime_example fs_example sink_example]
  note t3 = vary_on_negotiated_success[of ?r3 mime_example fs_example sink_example]
  from t1 n1 m1 have "\<forall>(code, h) \<in> set (statuses (new_events sink_example ?S1)).
      code = StatusOK \<longrightarrow> ''Accept-Encoding'' \<in> set (values_of h ''Vary'')" by blast
  with c1 have l1: "list_all (\<lambda>(code, h). code = StatusOK \<and> ''Accept-Encoding'' \<in> set (values_of h ''Vary''))
        (statuses (new_events sink_example ?S1))"
    by (cases "statuses (new_events sink_example ?S1)") auto
  from t3 n3 p3 have "\<forall>(code, h) \<in> set (statuses (new_events sink_example ?S3)).
      code = StatusOK \<longrightarrow> ''Accept-Encoding'' \<in> set (values_of h ''Vary'')" by blast
  with c3 have l3: "list_all (\<lambda>(code, h). code = StatusOK \<and> ''Accept-Encoding'' \<in> set (values_of h ''Vary''))
        (statuses (new_events sink_example ?S3))"
    by (cases "statuses (new_events sink_example ?S3)") auto
  from t2 n2 k v0 have "Hdr ?S2 ''Vary'' = None" by simp
  with n1 m1 n2 k l1 d1 d2 n3 m3 a3 p3 l3 d3 show ?thesis by simp
qed

section \<open>Brotli before Gzip\<close>

text \<open>
  C5, as claimed: when both variants exist and both tokens are accepted, the response has
  the bytes of the \<open>.br\<close> file and \<open>Content-Encoding: br\<close>. The bytes are served, the
  header is not when the MIME type of the logical path's extension is unknown: for
  \<open>/data\<close>, with \<open>/data.br\<close> and \<open>/data.gz\<close> stored, the response is the Brotli bytes
  with no \<open>Content-Encoding\<close> (and no \<open>Vary\<close>), \<open>serveCompressedFile\<close> wrapping the writer
  in the auto-header shim only under its guard on the MIME type.
\<close>

theorem untyped_variant_lacks_content_encoding:
  "negotiated (request_example ''/data'' ''br,gzip'')
   \<and> accepts (request_example ''/data'' ''br,gzip'') ''br''
   \<and> accepts (request_example ''/data'' ''br,gzip'') ''gzip''
   \<and> first_status (fst (fs_example (request_example ''/data.br'' ''br,gzip''))) = Some StatusOK
   \<and> concat (chunks (fst (fs_example (request_example ''/data.br'' ''br,gzip'')))) = ''data, brotli''
   \<and> first_status (fst (fs_example (request_example ''/data.gz'' ''br,gzip''))) = Some StatusOK
   \<and> digest (fst (ServeHTTP mime_example fs_example sink_example
                     (request_example ''/data'' ''br,gzip'')))
       = ([(StatusOK, [], [])], ''data, brotli'')
   \<and> Hdr (fst (ServeHTTP mime_example fs_example sink_example
                  (request_example ''/data'' ''br,gzip''))) ''Content-Encoding'' = None"
  by code_simp

text \<open>
  C5, amended. For a negotiated request that accepts \<open>br\<close> (per \<open>hasToken\<close>; whether or
  not it accepts \<open>gzip\<close> too and whether or not a \<open>.gz\<close> variant exists), when the file
  server answers the \<open>.br\<close> path with the success status, the sink receives exactly one
  status call, the success status, and the body is the bytes the file server writes for
  the \<open>.br\<close> path; and when the MIME type of the logical path's extension is known, that
  status call goes out with \<open>Content-Encoding\<close> holding the sink's earlier values
  followed by \<open>br\<close> (exactly \<open>br\<close> on a sink that had none) and with \<open>Accept-Encoding\<close>
  in \<open>Vary\<close>.
\<close>

theorem brotli_preferred:
  fixes r :: "'a request_scheme" and fs :: "'a handler"
  assumes "negotiated r" and "accepts r ''br''"
    and "first_status (fst (fs (r\<lparr>URL_Path := logical_path r @ ''.br''\<rparr>))) = Some StatusOK"
  shows "\<exists>h. statuses (new_events w (fst (ServeHTTP mime fs w r))) = [(StatusOK, h)]
           \<and> body (new_events w (fst (ServeHTTP mime fs w r)))
               = concat (chunks (fst (fs (r\<lparr>URL_Path := logical_path r @ ''.br''\<rparr>))))
           \<and> (mime (Ext (logical_path r)) \<noteq> [] \<longrightarrow>
                h ''Content-Encoding'' = Some (values_of (Hdr w) ''Content-Encoding'' @ [''br''])
                \<and> ''Accept-Encoding'' \<in> set (values_of h ''Vary''))"
proof -
  let ?ops = "fst (fs (r\<lparr>URL_Path := logical_path r @ ''.br''\<rparr>))"
  let ?t1 = "tryServeCompressedFile mime fs ''.br'' ''br'' (logical_path r) w r"
  let ?h = "append_headers (Some (probe_buffer mime ''br'' (logical_path r) ?ops StatusOK)) (Hdr w)"
  from assms(3) have ok: "fst ?t1" by (simp add: tryServe_result(1))
  from assms(3) have "fst (snd ?t1) = committed StatusOK ?h ?ops w"
    by (simp add: tryServe_result(2))
  with ok assms(2) have S: "fst (ServeHTTP mime fs w r) = committed StatusOK ?h ?ops w"
    unfolding ServeHTTP_unfold[OF assms(1)] by (simp add: Let_def)
  have "statuses (new_events w (fst (ServeHTTP mime fs w r))) = [(StatusOK, ?h)]"
    and "body (new_events w (fst (ServeHTTP mime fs w r))) = concat (chunks ?ops)"
    unfolding S by (simp_all add: new_events_committed)
  moreover have "mime (Ext (logical_path r)) \<noteq> [] \<longrightarrow>
      ?h ''Content-Encoding'' = Some (values_of (Hdr w) ''Content-Encoding'' @ [''br''])
      \<and> ''Accept-Encoding'' \<in> set (values_of ?h ''Vary'')"
    by (simp add: append_headers_Some probe_buffer_success values_of_def)
  ultimately show ?thesis by blast
qed

theorem brotli_preferred_witness:
  "negotiated (request_example ''/foo.html'' ''br,gzip'')
   \<and> accepts (request_example ''/foo.html'' ''br,gzip'') ''br''
   \<and> mime_example (Ext (logical_path (request_example ''/foo.html'' ''br,gzip''))) \<noteq> []
   \<and> first_status (fst (fs_example ((request_example ''/foo.html'' ''br,gzip'')
         \<lparr>URL_Path := logical_path (request_example ''/foo.html'' ''br,gzip'') @ ''.br''\<rparr>)))
       = Some StatusOK
   \<and> (\<exists>h. statuses (new_events sink_example
              (fst (ServeHTTP mime_example fs_example sink_example
                      (request_example ''/foo.html'' ''br,gzip'')))) = [(StatusOK, h)]
          \<and> h ''Content-Encoding'' = Some [''br'']
          \<and> ''Accept-Encoding'' \<in> set (values_of h ''Vary''))
   \<and> body (new_events sink_example
              (fst (ServeHTTP mime_example fs_example sink_example
                      (request_example ''/foo.html'' ''br,gzip'')))) = ''foo, brotli''"
proof -
  let ?r = "request_example ''/foo.html'' ''br,gzip''"
  let ?q = "?r\<lparr>URL_Path := logical_path ?r @ ''.br''\<rparr>"
  have h: "negotiated ?r" "accepts ?r ''br''"
    "first_status (fst (fs_example ?q)) = Some StatusOK"
    and m: "mime_example (Ext (logical_path ?r)) \<noteq> []"
    by code_simp+
  have e: "values_of (Hdr sink_example) ''Content-Encoding'' = []"
    "concat (chunks (fst (fs_example ?q))) = ''foo, brotli''"
    by code_simp+
  note t = brotli_preferred[where r = "?r" and mime = mime_example and fs = fs_example
      and w = sink_example]
  from t[OF h] e h m show ?thesis by auto
qed

section \<open>No Content-Encoding without success\<close>

text \<open>
  C6. The auto-header shim, given a first status other than the success status, only
  marks its headers as sent and forwards the call: the header set is not touched. And
  for every request, whichever path of the handler and whichever candidate produces the
  response: when the file server itself leaves \<open>Content-Encoding\<close> alone, every status
  call other than the success status (a not-found response among them) reaches the sink
  with \<open>Content-Encoding\<close> as the sink had it before the call, so absent where it was
  absent.
\<close>


theorem no_injection_unless_success:
  fixes r :: "'a request_scheme" and fs :: "'a handler"
  shows
  "(\<not> headersSent x \<and> code \<noteq> StatusOK \<longrightarrow>
      responseWithContentEncoding_WriteHeader code x
        = x\<lparr>headersSent := True, wrapped := inner_WriteHeader code (wrapped x)\<rparr>)
   \<and> ((\<forall>q. keeps ''Content-Encoding'' (fst (fs q))) \<longrightarrow>
        (\<forall>(c, h) \<in> set (statuses (new_events w (fst (ServeHTTP mime fs w r)))).
           c \<noteq> StatusOK \<longrightarrow> h ''Content-Encoding'' = Hdr w ''Content-Encoding''))"
proof (intro conjI impI)
  assume "\<not> headersSent x \<and> code \<noteq> StatusOK"
  then show "responseWithContentEncoding_WriteHeader code x
        = x\<lparr>headersSent := True, wrapped := inner_WriteHeader code (wrapped x)\<rparr>"
    by (simp add: responseWithContentEncoding_WriteHeader_def Let_def)
next
  let ?S = "fst (ServeHTTP mime fs w r)"
  assume k: "\<forall>q. keeps ''Content-Encoding'' (fst (fs q))"
  show "\<forall>(c, h) \<in> set (statuses (new_events w ?S)).
           c \<noteq> StatusOK \<longrightarrow> h ''Content-Encoding'' = Hdr w ''Content-Encoding''"
  proof (cases "negotiated r")
    case True
    then show ?thesis
    proof (cases rule: negotiated_sink[of r mime fs w])
      case unchanged
      then show ?thesis by (simp add: new_events_same)
    next
      case (variant q ext enc code)
      from k have "keeps ''Content-Encoding'' (fst (fs q))" by simp
      then show ?thesis
        unfolding variant(7)
        by (simp add: new_events_committed append_headers_Some probe_buffer_keeps)
    next
      case (fallback q code)
      from k have "keeps ''Content-Encoding'' (fst (fs q))" by simp
      then show ?thesis
        unfolding fallback(2)
        by (simp add: new_events_committed inject_def keeps_pre_hdr)
    qed
  next
    case False
    from k have kr: "keeps ''Content-Encoding'' (fst (fs r))" by simp
    from False show ?thesis
    proof (cases rule: direct_sink[of r mime fs w])
      case plain
      from keeps_direct_all[OF kr, of w] show ?thesis
        unfolding plain by (auto simp: new_events_def)
    next
      case idle
      then show ?thesis by (simp add: new_events_same)
    next
      case (wrapped ct enc code)
      show ?thesis
        unfolding wrapped(2) using kr
        by (simp add: new_events_committed inject_def keeps_pre_hdr Header_Set_def)
    qed
  qed
qed

theorem no_injection_unless_success_witness:
  "\<not> headersSent r10 \<and> StatusNotFound \<noteq> StatusOK
   \<and> responseWithContentEncoding_WriteHeader StatusNotFound r10
       = r10\<lparr>headersSent := True, wrapped := inner_WriteHeader StatusNotFound (wrapped r10)\<rparr>
   \<and> (\<forall>q::request. keeps ''Content-Encoding'' (fst (fs_example q)))
   \<and> list_all (\<lambda>(c, h). c = StatusNotFound \<and> h ''Content-Encoding'' = None)
        (statuses (new_events sink_example
           (fst (ServeHTTP mime_example fs_example sink_example
                   (request_example ''/missing.html'' ''br,gzip'')))))
   \<and> digest (fst (ServeHTTP mime_example fs_example sink_example
                     (request_example ''/missing.html'' ''br,gzip'')))
       = ([(StatusNotFound, [], [])], ''404 page not found'')"
proof -
  let ?r = "request_example ''/missing.html'' ''br,gzip''"
  let ?S = "fst (ServeHTTP mime_example fs_example sink_example ?r)"
  have h: "\<not> headersSent r10" by (simp add: r10_def)
  have k: "\<forall>q::request. keeps ''Content-Encoding'' (fst (fs_example q))"
    by (simp add: fs_example_keeps)
  have d: "digest ?S = ([(StatusNotFound, [], [])], ''404 page not found'')"
    and c: "map fst (statuses (new_events sink_example ?S)) = [StatusNotFound]"
    and v: "Hdr sink_example ''Content-Encoding'' = None"
    by code_simp+
  note t = no_injection_unless_success[of r10 StatusNotFound fs_example sink_example mime_example ?r]
  from t h have a: "responseWithContentEncoding_WriteHeader StatusNotFound r10
       = r10\<lparr>headersSent := True, wrapped := inner_WriteHeader StatusNotFound (wrapped r10)\<rparr>"
    by simp
  from t k have "\<forall>(c, h) \<in> set (statuses (new_events sink_example ?S)).
           c \<noteq> StatusOK \<longrightarrow> h ''Content-Encoding'' = Hdr sink_example ''Content-Encoding''"
    by blast
  with c v have l: "list_all (\<lambda>(c, h). c = StatusNotFound \<and> h ''Content-Encoding'' = None)
        (statuses (new_events sink_example ?S))"
    by (cases "statuses (new_events sink_example ?S)") auto
  from h a k l d show ?thesis by simp
qed

end
